theory Spec2Isabelle
  imports Complex_Main "HOL-Library.AList"
begin

section \<open>JavaScript values\<close>

text \<open>
  The two source files (the Claude chat-completion service and \<open>FunctionCalling.js\<close>)
  work on duck-typed JSON data: messages, content parts and tool definitions are plain
  objects whose fields are probed with truthiness tests, \<open>===\<close>, \<open>||\<close> and \<open>??\<close>.
  The values are modelled as they are at run time. An object is an association list in
  insertion order, a number is an integer (token counts and schema constants; no claim
  reads a fraction out of a value), \<open>undefined\<close> is a value of its own.
\<close>

datatype json =
    JUndefined
  | JNull
  | JBool bool
  | JNum int
  | JStr string
  | JArr "json list"
  | JObj "(string \<times> json) list"

type_synonym obj = "(string \<times> json) list"

datatype js_error =
    TypeError
  | max_tokens_exceeded rat int

text \<open>\<open>if ( v )\<close>, \<open>! v\<close> and the left operand of \<open>||\<close>: JavaScript's ToBoolean.\<close>

fun truthy :: "json \<Rightarrow> bool" where
  "truthy JUndefined = False"
| "truthy JNull = False"
| "truthy (JBool b) = b"
| "truthy (JNum n) = (n \<noteq> 0)"
| "truthy (JStr s) = (s \<noteq> [])"
| "truthy (JArr xs) = True"
| "truthy (JObj kvs) = True"

text \<open>The left operand of \<open>??\<close> and the base of a property read that throws.\<close>

fun nullish :: "json \<Rightarrow> bool" where
  "nullish JUndefined = True"
| "nullish JNull = True"
| "nullish v = False"

text \<open>Reading and writing a field of an object: \<open>o.k\<close> and \<open>o.k = v\<close>.\<close>

definition field :: "obj \<Rightarrow> string \<Rightarrow> json" where
  "field kvs k = (case map_of kvs k of None \<Rightarrow> JUndefined | Some v \<Rightarrow> v)"

definition set_field :: "string \<Rightarrow> json \<Rightarrow> obj \<Rightarrow> obj" where
  "set_field k v kvs = AList.update k v kvs"

text \<open>
  \<open>v.k\<close> for a base \<open>v\<close> that is not \<open>null\<close> or \<open>undefined\<close> (on those the read throws, and
  every caller below tests \<open>nullish\<close> first). The keys read in this program
  (\<open>parameters\<close>, \<open>input_schema\<close>, \<open>name\<close>, \<open>description\<close>, \<open>type\<close>,
  \<open>function\<close>, \<open>usage\<close>) are no properties of strings, numbers, booleans or arrays,
  so the read yields \<open>undefined\<close> there.
\<close>

fun js_get :: "json \<Rightarrow> string \<Rightarrow> json" where
  "js_get (JObj kvs) k = field kvs k"
| "js_get v k = JUndefined"

text \<open>\<open>a || b\<close> and \<open>a ?? b\<close> on values.\<close>

definition js_or :: "json \<Rightarrow> json \<Rightarrow> json" where
  "js_or a b = (if truthy a then a else b)"

definition js_coalesce :: "json \<Rightarrow> json \<Rightarrow> json" where
  "js_coalesce a b = (if nullish a then b else a)"

section \<open>FunctionCalling: tool definitions\<close>

text \<open>
  \<open>normalize_function\<close> is the closure of \<open>normalize_tools_object\<close> (lines 21 to 40).
  Its first statement reads \<open>fn.parameters\<close>, which throws a TypeError when \<open>fn\<close> is
  \<open>undefined\<close> or \<open>null\<close>. \<open>normal_fn\<close> starts empty and gets \<open>parameters\<close>, then
  \<open>name\<close> and \<open>description\<close> when they are truthy, in this order.
\<close>

definition normalize_function :: "json \<Rightarrow> js_error + json" where
  "normalize_function fn =
     (if nullish fn then Inl TypeError
      else
        let parameters = js_or (js_get fn ''parameters'') (js_get fn ''input_schema'');
            normal_fn = set_field ''parameters''
              (js_coalesce parameters (JObj [(''type'', JStr ''object'')])) [];
            normal_fn = (if truthy (js_get fn ''name'')
                         then set_field ''name'' (js_get fn ''name'') normal_fn
                         else normal_fn);
            normal_fn = (if truthy (js_get fn ''description'')
                         then set_field ''description'' (js_get fn ''description'') normal_fn
                         else normal_fn)
        in Inr (JObj normal_fn))"

text \<open>The object literal \<open>{ type: 'function', function: ... }\<close> of all three branches.\<close>

definition function_tool :: "js_error + json \<Rightarrow> js_error + json" where
  "function_tool r =
     (case r of
        Inl e \<Rightarrow> Inl e
      | Inr fn \<Rightarrow> Inr (JObj [(''type'', JStr ''function''), (''function'', fn)]))"

text \<open>
  The body of the loop for one tool (lines 42 to 57): \<open>tool.input_schema\<close> is tested
  first, then \<open>tool.type === 'function'\<close>, whose branch passes \<open>tool.function\<close> on
  without looking at it.
\<close>

definition normalize_tool :: "json \<Rightarrow> js_error + json" where
  "normalize_tool tool =
     (if nullish tool then Inl TypeError
      else if truthy (js_get tool ''input_schema'') then function_tool (normalize_function tool)
      else if js_get tool ''type'' = JStr ''function''
        then function_tool (normalize_function (js_get tool ''function''))
      else function_tool (normalize_function tool))"

text \<open>
  The loop \<open>for ( let i=0 ; i < tools.length ; i++ )\<close> writes \<open>tools[i]\<close> in place and
  returns the same array; a TypeError leaves the loop at once.
\<close>

function normalize_loop :: "nat \<Rightarrow> json list \<Rightarrow> js_error + json list" where
  "normalize_loop i tools =
     (if i < length tools
      then (case normalize_tool (tools ! i) of
              Inl e \<Rightarrow> Inl e
            | Inr normalized_tool \<Rightarrow> normalize_loop (i + 1) (tools[i := normalized_tool]))
      else Inr tools)"
  by pat_completeness auto
termination
  by (relation "measure (\<lambda>(i, tools). length tools - i)") auto

declare normalize_loop.simps [simp del]

definition normalize_tools_object :: "json list \<Rightarrow> js_error + json list" where
  "normalize_tools_object tools = normalize_loop 0 tools"

definition make_openai_tools :: "json \<Rightarrow> json" where
  "make_openai_tools tools = tools"

text \<open>
  The callback of \<open>tools.map\<close> in \<open>make_claude_tools\<close>: destructuring
  \<open>tool.function\<close> throws when the tool or its \<open>function\<close> is \<open>null\<close> or \<open>undefined\<close>;
  the result always has the three keys, whatever their values.
\<close>

definition claude_tool :: "json \<Rightarrow> js_error + json" where
  "claude_tool tool =
     (if nullish tool \<or> nullish (js_get tool ''function'') then Inl TypeError
      else
        let f = js_get tool ''function''
        in Inr (JObj [(''name'', js_get f ''name''),
                      (''description'', js_get f ''description''),
                      (''input_schema'', js_get f ''parameters'')]))"

text \<open>\<open>Array.prototype.map\<close> with a callback that may throw.\<close>

fun map_throwing :: "('a \<Rightarrow> js_error + 'b) \<Rightarrow> 'a list \<Rightarrow> js_error + 'b list" where
  "map_throwing f [] = Inr []"
| "map_throwing f (x # xs) =
     (case f x of
        Inl e \<Rightarrow> Inl e
      | Inr y \<Rightarrow> (case map_throwing f xs of Inl e \<Rightarrow> Inl e | Inr ys \<Rightarrow> Inr (y # ys)))"

text \<open>
  \<open>make_claude_tools\<close>: a falsy argument gives \<open>undefined\<close>; a truthy value that is no
  array has no \<open>map\<close> method, and calling it throws.
\<close>

definition make_claude_tools :: "json \<Rightarrow> js_error + json" where
  "make_claude_tools tools =
     (if \<not> truthy tools then Inr JUndefined
      else (case tools of
              JArr ts \<Rightarrow> (case map_throwing claude_tool ts of
                            Inl e \<Rightarrow> Inl e
                          | Inr r \<Rightarrow> Inr (JArr r))
            | _ \<Rightarrow> Inl TypeError))"

text \<open>
  The composition \<open>make_claude_tools(normalize_tools_object(tools))\<close>, as a caller that
  targets Claude runs it.
\<close>

definition claude_of_normalized :: "json list \<Rightarrow> js_error + json" where
  "claude_of_normalized tools =
     (case normalize_tools_object tools of
        Inl e \<Rightarrow> Inl e
      | Inr out \<Rightarrow> make_claude_tools (JArr out))"

subsection \<open>The canonical form in closed terms\<close>

text \<open>
  The function descriptor the dispatch selects for a tool: the tool itself, or its
  \<open>function\<close> field in the branch taken for \<open>type === 'function'\<close>.
\<close>

definition descriptor :: "json \<Rightarrow> json" where
  "descriptor tool =
     (if truthy (js_get tool ''input_schema'') then tool
      else if js_get tool ''type'' = JStr ''function'' then js_get tool ''function''
      else tool)"

text \<open>
  The \<open>parameters\<close> of a descriptor: \<open>fn.parameters\<close> when truthy, else
  \<open>fn.input_schema\<close> unless it is \<open>null\<close> or \<open>undefined\<close>, else the default schema.
\<close>

definition chosen_parameters :: "json \<Rightarrow> json" where
  "chosen_parameters fn =
     (if truthy (js_get fn ''parameters'') then js_get fn ''parameters''
      else if \<not> nullish (js_get fn ''input_schema'') then js_get fn ''input_schema''
      else JObj [(''type'', JStr ''object'')])"

definition optional_field :: "string \<Rightarrow> json \<Rightarrow> obj" where
  "optional_field k v = (if truthy v then [(k, v)] else [])"

definition canonical_tool :: "json \<Rightarrow> json" where
  "canonical_tool tool =
     (let fn = descriptor tool
      in JObj [(''type'', JStr ''function''),
               (''function'', JObj ((''parameters'', chosen_parameters fn)
                  # optional_field ''name'' (js_get fn ''name'')
                  @ optional_field ''description'' (js_get fn ''description'')))])"

text \<open>
  The tools on which no property read throws: the tool and the descriptor selected for it
  are neither \<open>null\<close> nor \<open>undefined\<close>.
\<close>

definition has_descriptor :: "json \<Rightarrow> bool" where
  "has_descriptor tool = (\<not> nullish tool \<and> \<not> nullish (descriptor tool))"

text \<open>
  A schema is a JSON object, and every object is truthy. The weaker condition below is
  all that the second normalization needs: an \<open>input_schema\<close> that is there is not one
  of the falsy values \<open>false\<close>, \<open>0\<close> and \<open>''\<close>.
\<close>

definition input_schema_usable :: "json \<Rightarrow> bool" where
  "input_schema_usable tool =
     (let s = js_get (descriptor tool) ''input_schema'' in nullish s \<or> truthy s)"

text \<open>What a truthiness guard lets through: the value, or nothing.\<close>

definition kept :: "json \<Rightarrow> json" where
  "kept v = (if truthy v then v else JUndefined)"

definition claude_entry :: "json \<Rightarrow> json" where
  "claude_entry tool =
     (let fn = descriptor tool
      in JObj [(''name'', kept (js_get fn ''name'')),
               (''description'', kept (js_get fn ''description'')),
               (''input_schema'', chosen_parameters fn)])"

section \<open>The message adapter of \<open>complete\<close>\<close>

text \<open>
  The loop of \<open>complete\<close> (lines 58 to 88) assigns to \<open>message.content\<close> and
  \<open>message.role\<close>, pushes the caller's message objects themselves onto
  \<open>adapted_messages\<close>, and pushes merged content into the content array of the last of
  them. The objects are therefore kept in a store: a message is an address, the caller's
  array is a list of addresses (the same object may occur twice), and the loop returns the
  store it leaves behind. Content arrays are owned by their message, as they are in a
  request that was parsed from JSON; the elements of the caller's array are objects.
  This store holds what the loop hands on to the token estimate and to the provider.
  What the loop does to arrays that several objects share, and to objects outside the
  request, is not visible in it; that is the subject of the store with references
  further down, where an array is a cell of its own.
\<close>

type_synonym addr = nat

type_synonym heap = "addr \<Rightarrow> obj"

text \<open>
  Modelled from the spec: \<open>whatis\<close> of \<open>util/langutil\<close>, which is not among the
  source files. The spec's step 2 wraps content that "is not already a sequence", so the
  answer is \<open>'array'\<close> exactly for arrays; the other answers are those of \<open>typeof\<close>, with
  \<open>'null'\<close> for \<open>null\<close>.
\<close>

definition whatis :: "json \<Rightarrow> string" where
  "whatis thing =
     (case thing of
        JArr xs \<Rightarrow> ''array''
      | JNull \<Rightarrow> ''null''
      | JUndefined \<Rightarrow> ''undefined''
      | JBool b \<Rightarrow> ''boolean''
      | JNum n \<Rightarrow> ''number''
      | JStr s \<Rightarrow> ''string''
      | JObj kvs \<Rightarrow> ''object'')"

text \<open>Lines 63 to 72: the three rewrites of the message object, in this order.\<close>

definition wrap_string_content :: "obj \<Rightarrow> obj" where
  "wrap_string_content message =
     (case field message ''content'' of
        JStr t \<Rightarrow> set_field ''content'' (JObj [(''type'', JStr ''text''), (''text'', JStr t)]) message
      | _ \<Rightarrow> message)"

definition wrap_content_in_array :: "obj \<Rightarrow> obj" where
  "wrap_content_in_array message =
     (if whatis (field message ''content'') \<noteq> ''array''
      then set_field ''content'' (JArr [field message ''content'']) message
      else message)"

definition default_role :: "obj \<Rightarrow> obj" where
  "default_role message =
     (if \<not> truthy (field message ''role'')
      then set_field ''role'' (JStr ''user'') message
      else message)"

definition normalize_message :: "obj \<Rightarrow> obj" where
  "normalize_message message =
     default_role (wrap_content_in_array (wrap_string_content message))"

record adapter_state =
  heap :: heap
  adapted_messages :: "addr list"
  system_prompts :: "json list"
  previous_was_user :: bool

text \<open>
  One iteration (lines 63 to 87). In the merge branch \<open>Array.isArray\<close> is the function
  itself, which is truthy, so the spread is always of \<open>message.content\<close>. Reading
  \<open>last_msg.content\<close> of a missing last message, calling \<open>push\<close> on a value that is no
  array and spreading a value that is no array are TypeErrors. \<open>previous_was_user\<close> is
  set when a user message is placed and is never cleared.
\<close>

definition adapt_message :: "addr \<Rightarrow> adapter_state \<Rightarrow> js_error + adapter_state" where
  "adapt_message message s =
     (let h = (heap s)(message := normalize_message (heap s message));
          role = field (h message) ''role''
      in if role = JStr ''user'' \<and> previous_was_user s then
           (if adapted_messages s = [] then Inl TypeError
            else
              let last_msg = last (adapted_messages s)
              in (case (field (h last_msg) ''content'', field (h message) ''content'') of
                    (JArr xs, JArr ys) \<Rightarrow>
                      Inr (s\<lparr>heap := h(last_msg := set_field ''content'' (JArr (xs @ ys)) (h last_msg))\<rparr>)
                  | _ \<Rightarrow> Inl TypeError))
         else if role = JStr ''system'' then
           (case field (h message) ''content'' of
              JArr ys \<Rightarrow> Inr (s\<lparr>heap := h, system_prompts := system_prompts s @ ys\<rparr>)
            | _ \<Rightarrow> Inl TypeError)
         else
           Inr (s\<lparr>heap := h,
                   adapted_messages := adapted_messages s @ [message],
                   previous_was_user := (if role = JStr ''user'' then True else previous_was_user s)\<rparr>))"

fun adapt_loop :: "addr list \<Rightarrow> adapter_state \<Rightarrow> js_error + adapter_state" where
  "adapt_loop [] s = Inr s"
| "adapt_loop (message # messages) s =
     (case adapt_message message s of
        Inl e \<Rightarrow> Inl e
      | Inr s' \<Rightarrow> adapt_loop messages s')"

definition adapt_messages :: "heap \<Rightarrow> addr list \<Rightarrow> js_error + adapter_state" where
  "adapt_messages h messages =
     adapt_loop messages
       \<lparr>heap = h, adapted_messages = [], system_prompts = [], previous_was_user = False\<rparr>"

text \<open>The values the two arrays hold when the loop is over.\<close>

definition adapted_values :: "adapter_state \<Rightarrow> json list" where
  "adapted_values s = map (\<lambda>a. JObj (heap s a)) (adapted_messages s)"

definition normalize_messages :: "heap \<Rightarrow> addr list \<Rightarrow> js_error + json list \<times> json list" where
  "normalize_messages h messages =
     (case adapt_messages h messages of
        Inl e \<Rightarrow> Inl e
      | Inr s \<Rightarrow> Inr (adapted_values s, system_prompts s))"

subsection \<open>The adapter in closed terms\<close>

text \<open>
  The content parts of a message as the rewrites of lines 63 to 71 produce them, and the
  role after line 72.
\<close>

definition content_parts :: "obj \<Rightarrow> json list" where
  "content_parts message =
     (case field message ''content'' of
        JStr t \<Rightarrow> [JObj [(''type'', JStr ''text''), (''text'', JStr t)]]
      | JArr xs \<Rightarrow> xs
      | v \<Rightarrow> [v])"

definition effective_role :: "obj \<Rightarrow> json" where
  "effective_role message =
     (if truthy (field message ''role'') then field message ''role'' else JStr ''user'')"

definition has_role :: "string \<Rightarrow> json \<Rightarrow> bool" where
  "has_role r m = (js_get m ''role'' = JStr r)"

fun consecutive_users :: "json list \<Rightarrow> bool" where
  "consecutive_users (x # y # ms) =
     ((has_role ''user'' x \<and> has_role ''user'' y) \<or> consecutive_users (y # ms))"
| "consecutive_users ms = False"

text \<open>
  What holds of the loop state before every iteration: placed messages have a truthy role
  other than \<open>'system'\<close> and an array as content, the flag is set only when something was
  placed, and at most one placed message is a user message.
\<close>

definition adapter_inv :: "adapter_state \<Rightarrow> bool" where
  "adapter_inv s \<longleftrightarrow>
     (\<forall>a \<in> set (adapted_messages s).
        truthy (field (heap s a) ''role'') \<and> field (heap s a) ''role'' \<noteq> JStr ''system''
        \<and> (\<exists>xs. field (heap s a) ''content'' = JArr xs))
     \<and> (previous_was_user s \<longrightarrow> adapted_messages s \<noteq> [])
     \<and> length (filter (\<lambda>a. field (heap s a) ''role'' = JStr ''user'') (adapted_messages s))
          \<le> (if previous_was_user s then 1 else 0)"

definition merges :: "addr \<Rightarrow> adapter_state \<Rightarrow> bool" where
  "merges a s \<longleftrightarrow> effective_role (heap s a) = JStr ''user'' \<and> previous_was_user s"

definition normalized_heap :: "addr \<Rightarrow> adapter_state \<Rightarrow> heap" where
  "normalized_heap a s = (heap s)(a := normalize_message (heap s a))"

definition adapt_result :: "addr \<Rightarrow> adapter_state \<Rightarrow> adapter_state" where
  "adapt_result a s =
     (let h = normalized_heap a s; l = last (adapted_messages s)
      in if merges a s then
           s\<lparr>heap := h(l := set_field ''content''
                 (JArr (content_parts (h l) @ content_parts (heap s a))) (h l))\<rparr>
         else if effective_role (heap s a) = JStr ''system'' then
           s\<lparr>heap := h, system_prompts := system_prompts s @ content_parts (heap s a)\<rparr>
         else
           s\<lparr>heap := h,
             adapted_messages := adapted_messages s @ [a],
             previous_was_user := (effective_role (heap s a) = JStr ''user'' \<or> previous_was_user s)\<rparr>)"

section \<open>The message adapter on a store with references\<close>

text \<open>
  The loop of \<open>complete\<close> reaches the caller's data through references: \<open>message.content = ...\<close>
  writes a field of the caller's object, and \<open>last_msg.content.push(...)\<close> appends to an
  array that any other object may hold as well. To say what the loop leaves unchanged, the
  objects and arrays are therefore kept in a store of cells, and a value is a primitive or
  the address of a cell. A new object or array is a new cell at the end of the store.
\<close>

datatype val =
    VUndefined
  | VNull
  | VBool bool
  | VNum int
  | VStr string
  | VRef addr

datatype cell =
    Obj "(string \<times> val) list"
  | Arr "val list"

type_synonym store = "cell list"

text \<open>ToBoolean on these values; every object and array is truthy.\<close>

fun val_truthy :: "val \<Rightarrow> bool" where
  "val_truthy VUndefined = False"
| "val_truthy VNull = False"
| "val_truthy (VBool b) = b"
| "val_truthy (VNum n) = (n \<noteq> 0)"
| "val_truthy (VStr s) = (s \<noteq> [])"
| "val_truthy (VRef r) = True"

text \<open>
  Reading a field that is not there gives \<open>undefined\<close>, and writing one adds it. Fields
  are read and written on object cells only: the messages of a request are objects.
\<close>

definition cell_at :: "store \<Rightarrow> addr \<Rightarrow> cell option" where
  "cell_at h a = (if a < length h then Some (h ! a) else None)"

definition read_field :: "store \<Rightarrow> addr \<Rightarrow> string \<Rightarrow> val" where
  "read_field h a k =
     (case cell_at h a of
        Some (Obj fs) \<Rightarrow> (case map_of fs k of None \<Rightarrow> VUndefined | Some v \<Rightarrow> v)
      | _ \<Rightarrow> VUndefined)"

definition write_field :: "addr \<Rightarrow> string \<Rightarrow> val \<Rightarrow> store \<Rightarrow> store" where
  "write_field a k v h =
     (case cell_at h a of
        Some (Obj fs) \<Rightarrow> h[a := Obj (AList.update k v fs)]
      | _ \<Rightarrow> h)"

text \<open>The elements of an array, for \<open>push\<close> and for the spread \<open>...message.content\<close>.\<close>

definition elements :: "store \<Rightarrow> val \<Rightarrow> val list option" where
  "elements h v =
     (case v of
        VRef r \<Rightarrow> (case cell_at h r of Some (Arr xs) \<Rightarrow> Some xs | _ \<Rightarrow> None)
      | _ \<Rightarrow> None)"

definition is_array :: "store \<Rightarrow> val \<Rightarrow> bool" where
  "is_array h v = (elements h v \<noteq> None)"

text \<open>
  Modelled from the spec: \<open>whatis\<close> of \<open>util/langutil\<close>, which is not among the
  source files, on the values of the store. As in \<open>whatis\<close> above, the answer is \<open>'array'\<close>
  exactly for arrays.
\<close>

definition whatis_ref :: "store \<Rightarrow> val \<Rightarrow> string" where
  "whatis_ref h thing =
     (case thing of
        VRef r \<Rightarrow> (case cell_at h r of Some (Arr xs) \<Rightarrow> ''array'' | _ \<Rightarrow> ''object'')
      | VNull \<Rightarrow> ''null''
      | VUndefined \<Rightarrow> ''undefined''
      | VBool b \<Rightarrow> ''boolean''
      | VNum n \<Rightarrow> ''number''
      | VStr s \<Rightarrow> ''string'')"

text \<open>
  Lines 63 to 72 on the store. The object literal of line 64 and the array literal of
  line 70 are new cells.
\<close>

definition wrap_string_ref :: "addr \<Rightarrow> store \<Rightarrow> store" where
  "wrap_string_ref message h =
     (case read_field h message ''content'' of
        VStr t \<Rightarrow>
          write_field message ''content'' (VRef (length h))
            (h @ [Obj [(''type'', VStr ''text''), (''text'', VStr t)]])
      | _ \<Rightarrow> h)"

definition wrap_array_ref :: "addr \<Rightarrow> store \<Rightarrow> store" where
  "wrap_array_ref message h =
     (if whatis_ref h (read_field h message ''content'') \<noteq> ''array''
      then write_field message ''content'' (VRef (length h))
             (h @ [Arr [read_field h message ''content'']])
      else h)"

definition default_role_ref :: "addr \<Rightarrow> store \<Rightarrow> store" where
  "default_role_ref message h =
     (if \<not> val_truthy (read_field h message ''role'')
      then write_field message ''role'' (VStr ''user'') h
      else h)"

definition normalize_ref :: "addr \<Rightarrow> store \<Rightarrow> store" where
  "normalize_ref message h =
     default_role_ref message (wrap_array_ref message (wrap_string_ref message h))"

text \<open>
  The loop state: the store, the two arrays under construction (\<open>adapted_messages\<close> holds
  the caller's objects themselves) and the flag.
\<close>

record ref_state =
  store :: store
  adapted_messages_ref :: "addr list"
  system_prompts_ref :: "val list"
  previous_was_user_ref :: bool

text \<open>
  One iteration (lines 63 to 87) on the store. The elements of the caller's array are
  objects, as above; an address that holds no object stands for an element that is none,
  and is answered as the code answers \<open>null\<close> and \<open>undefined\<close>, with a TypeError (an
  array or a primitive as element is not modelled). In the merge branch \<open>push\<close> on a
  value that is no array is a TypeError, and the spread is evaluated before \<open>push\<close>
  runs, so pushing an array into itself doubles it; the array that grows is the one
  \<open>last_msg.content\<close> refers to, whoever else refers to it.
\<close>

definition adapt_message_ref :: "addr \<Rightarrow> ref_state \<Rightarrow> js_error + ref_state" where
  "adapt_message_ref message s =
     (case cell_at (store s) message of
        Some (Obj fs) \<Rightarrow>
          (let h = normalize_ref message (store s);
               role = read_field h message ''role''
           in if role = VStr ''user'' \<and> previous_was_user_ref s then
                (if adapted_messages_ref s = [] then Inl TypeError
                 else
                   let last_msg = last (adapted_messages_ref s)
                   in (case read_field h last_msg ''content'' of
                         VRef r \<Rightarrow>
                           (case (elements h (VRef r),
                                  elements h (read_field h message ''content'')) of
                              (Some xs, Some ys) \<Rightarrow> Inr (s\<lparr>store := h[r := Arr (xs @ ys)]\<rparr>)
                            | _ \<Rightarrow> Inl TypeError)
                       | _ \<Rightarrow> Inl TypeError))
              else if role = VStr ''system'' then
                (case elements h (read_field h message ''content'') of
                   Some ys \<Rightarrow> Inr (s\<lparr>store := h, system_prompts_ref := system_prompts_ref s @ ys\<rparr>)
                 | None \<Rightarrow> Inl TypeError)
              else
                Inr (s\<lparr>store := h,
                        adapted_messages_ref := adapted_messages_ref s @ [message],
                        previous_was_user_ref := (if role = VStr ''user'' then True else previous_was_user_ref s)\<rparr>))
      | _ \<Rightarrow> Inl TypeError)"

fun adapt_loop_ref :: "addr list \<Rightarrow> ref_state \<Rightarrow> js_error + ref_state" where
  "adapt_loop_ref [] s = Inr s"
| "adapt_loop_ref (message # messages) s =
     (case adapt_message_ref message s of
        Inl e \<Rightarrow> Inl e
      | Inr s' \<Rightarrow> adapt_loop_ref messages s')"

definition adapt_messages_ref :: "store \<Rightarrow> addr list \<Rightarrow> js_error + ref_state" where
  "adapt_messages_ref h messages =
     adapt_loop_ref messages
       \<lparr>store = h, adapted_messages_ref = [], system_prompts_ref = [], previous_was_user_ref = False\<rparr>"

text \<open>The store the caller is left with, and the two arrays with it.\<close>

definition store_after :: "store \<Rightarrow> addr list \<Rightarrow> js_error + store" where
  "store_after h messages =
     (case adapt_messages_ref h messages of
        Inl e \<Rightarrow> Inl e
      | Inr s \<Rightarrow> Inr (store s))"

definition normalize_messages_ref ::
  "store \<Rightarrow> addr list \<Rightarrow> js_error + addr list \<times> val list \<times> store" where
  "normalize_messages_ref h messages =
     (case adapt_messages_ref h messages of
        Inl e \<Rightarrow> Inl e
      | Inr s \<Rightarrow> Inr (adapted_messages_ref s, system_prompts_ref s, store s))"

subsection \<open>The store in closed terms\<close>

text \<open>
  A message of the request is an object whose \<open>content\<close>, when it is a reference, refers
  to a cell of the store.
\<close>

definition is_obj :: "store \<Rightarrow> addr \<Rightarrow> bool" where
  "is_obj h a = (case cell_at h a of Some (Obj fs) \<Rightarrow> True | _ \<Rightarrow> False)"

definition message_at :: "store \<Rightarrow> addr \<Rightarrow> bool" where
  "message_at h m \<longleftrightarrow>
     is_obj h m \<and> (\<forall>r. read_field h m ''content'' = VRef r \<longrightarrow> r < length h)"

text \<open>The role after line 72.\<close>

definition effective_role_ref :: "val \<Rightarrow> val" where
  "effective_role_ref r = (if val_truthy r then r else VStr ''user'')"

text \<open>
  \<open>wrapped_part n c h w\<close>: \<open>w\<close> is \<open>c\<close> or, when \<open>c\<close> is a string, a new object
  \<open>{ type: 'text', text: c }\<close>, allocated at or after address \<open>n\<close>.
  \<open>holds_wrapped n c h c'\<close>: \<open>c'\<close> refers to an array allocated at or after \<open>n\<close> whose
  first element is such a part.
\<close>

definition wrapped_part :: "nat \<Rightarrow> val \<Rightarrow> store \<Rightarrow> val \<Rightarrow> bool" where
  "wrapped_part n c h w \<longleftrightarrow>
     (case c of
        VStr t \<Rightarrow> (\<exists>p. w = VRef p \<and> n \<le> p \<and> p < length h
                      \<and> h ! p = Obj [(''type'', VStr ''text''), (''text'', VStr t)])
      | _ \<Rightarrow> w = c)"

definition holds_wrapped :: "nat \<Rightarrow> val \<Rightarrow> store \<Rightarrow> val \<Rightarrow> bool" where
  "holds_wrapped n c h c' \<longleftrightarrow>
     (\<exists>r w ys. c' = VRef r \<and> n \<le> r \<and> r < length h \<and> h ! r = Arr (w # ys)
        \<and> wrapped_part n c h w)"

text \<open>
  What one iteration may do to an object: \<open>role\<close> is kept or, when falsy, becomes
  \<open>'user'\<close>; \<open>content\<close> is kept or, when it is no array, becomes a reference to a new
  cell; every other field is kept.
\<close>

definition content_kept :: "store \<Rightarrow> val \<Rightarrow> val \<Rightarrow> bool" where
  "content_kept h c c' \<longleftrightarrow>
     c' = c \<or> (\<not> is_array h c \<and> (\<exists>r. c' = VRef r \<and> length h \<le> r))"

definition role_kept :: "val \<Rightarrow> val \<Rightarrow> bool" where
  "role_kept r r' \<longleftrightarrow> r' = r \<or> (\<not> val_truthy r \<and> r' = VStr ''user'')"

definition obj_rel :: "store \<Rightarrow> store \<Rightarrow> addr \<Rightarrow> bool" where
  "obj_rel h h' a \<longleftrightarrow>
     is_obj h' a
     \<and> (\<forall>k. k \<noteq> ''role'' \<longrightarrow> k \<noteq> ''content'' \<longrightarrow> read_field h' a k = read_field h a k)
     \<and> role_kept (read_field h a ''role'') (read_field h' a ''role'')
     \<and> content_kept h (read_field h a ''content'') (read_field h' a ''content'')"

text \<open>
  The effect of one iteration on the store, and the two forms the new store can have: the
  normalized store, or the normalized store with one array extended.
\<close>

definition moves :: "addr \<Rightarrow> ref_state \<Rightarrow> ref_state \<Rightarrow> bool" where
  "moves m s s' \<longleftrightarrow>
     length (store s) \<le> length (store s')
     \<and> (\<forall>b. is_obj (store s) b \<longrightarrow> b \<noteq> m \<longrightarrow> store s' ! b = store s ! b)
     \<and> obj_rel (store s) (store s') m
     \<and> val_truthy (read_field (store s') m ''role'')
     \<and> is_array (store s') (read_field (store s') m ''content'')
     \<and> (\<forall>a xs. a < length (store s) \<longrightarrow> store s ! a = Arr xs \<longrightarrow>
           (\<exists>extra. store s' ! a = Arr (xs @ extra)
              \<and> (extra \<noteq> [] \<longrightarrow>
                    (\<exists>l \<in> set (adapted_messages_ref s). read_field (store s) l ''content'' = VRef a))))
     \<and> set (adapted_messages_ref s') \<subseteq> insert m (set (adapted_messages_ref s))
     \<and> (previous_was_user_ref s' \<longrightarrow> adapted_messages_ref s' \<noteq> [])"

definition via :: "addr \<Rightarrow> ref_state \<Rightarrow> ref_state \<Rightarrow> bool" where
  "via m s s' \<longleftrightarrow>
     store s' = normalize_ref m (store s)
     \<or> (\<exists>r xs ys. r < length (store s)
            \<and> elements (normalize_ref m (store s)) (VRef r) = Some xs
            \<and> store s' = (normalize_ref m (store s))[r := Arr (xs @ ys)])"

text \<open>Before every iteration the flag is set only when something was placed.\<close>

definition ready :: "ref_state \<Rightarrow> bool" where
  "ready s \<longleftrightarrow>
     (previous_was_user_ref s \<longrightarrow> adapted_messages_ref s \<noteq> [])
     \<and> (\<forall>l \<in> set (adapted_messages_ref s).
           is_obj (store s) l \<and> is_array (store s) (read_field (store s) l ''content''))"

text \<open>
  What holds of the store after the messages in \<open>P\<close> have been processed, relative to the
  store \<open>h0\<close> the loop started from.
\<close>

definition frame_inv :: "store \<Rightarrow> addr set \<Rightarrow> ref_state \<Rightarrow> bool" where
  "frame_inv h0 P s \<longleftrightarrow>
     length h0 \<le> length (store s)
     \<and> (\<forall>a xs. a < length h0 \<longrightarrow> h0 ! a = Arr xs \<longrightarrow>
           (\<exists>extra. store s ! a = Arr (xs @ extra)
              \<and> (extra \<noteq> [] \<longrightarrow> (\<exists>m \<in> P. read_field h0 m ''content'' = VRef a))))
     \<and> (\<forall>a. is_obj h0 a \<longrightarrow> a \<notin> P \<longrightarrow> store s ! a = h0 ! a)
     \<and> (\<forall>a. is_obj h0 a \<longrightarrow> obj_rel h0 (store s) a)
     \<and> (\<forall>a \<in> P. val_truthy (read_field (store s) a ''role'')
                  \<and> is_array (store s) (read_field (store s) a ''content''))
     \<and> set (adapted_messages_ref s) \<subseteq> P
     \<and> (previous_was_user_ref s \<longrightarrow> adapted_messages_ref s \<noteq> [])"

definition wrapped_inv :: "store \<Rightarrow> addr set \<Rightarrow> ref_state \<Rightarrow> bool" where
  "wrapped_inv h0 P s \<longleftrightarrow>
     (\<forall>a \<in> P. \<not> is_array h0 (read_field h0 a ''content'') \<longrightarrow>
        holds_wrapped (length h0) (read_field h0 a ''content'') (store s)
          (read_field (store s) a ''content''))"

text \<open>
  The loop's two arrays on the store: which entries of \<open>adapted_messages\<close> are user
  messages, which messages of the request are system messages, and what was pushed onto
  \<open>system_prompts\<close> for one of them: the elements its content array had at the start,
  possibly followed by more, or its wrapped content.
\<close>

definition user_entries :: "ref_state \<Rightarrow> addr list" where
  "user_entries s =
     filter (\<lambda>a. read_field (store s) a ''role'' = VStr ''user'') (adapted_messages_ref s)"

definition system_messages :: "store \<Rightarrow> addr list \<Rightarrow> addr list" where
  "system_messages h messages = filter (\<lambda>m. read_field h m ''role'' = VStr ''system'') messages"

definition begins_with_parts :: "store \<Rightarrow> store \<Rightarrow> addr \<Rightarrow> val list \<Rightarrow> bool" where
  "begins_with_parts h h' m seg \<longleftrightarrow>
     (case elements h (read_field h m ''content'') of
        Some xs \<Rightarrow> (\<exists>extra. seg = xs @ extra)
      | None \<Rightarrow> (\<exists>w ys. seg = w # ys \<and> wrapped_part (length h) (read_field h m ''content'') h' w))"

text \<open>
  What holds of the two arrays before every iteration, and what one iteration does to
  them.
\<close>

definition placed_inv :: "ref_state \<Rightarrow> bool" where
  "placed_inv s \<longleftrightarrow>
     (\<forall>a \<in> set (adapted_messages_ref s). read_field (store s) a ''role'' \<noteq> VStr ''system'')
     \<and> length (user_entries s) \<le> (if previous_was_user_ref s then 1 else 0)"

definition prompts_inv :: "store \<Rightarrow> addr list \<Rightarrow> ref_state \<Rightarrow> bool" where
  "prompts_inv h0 seen s \<longleftrightarrow>
     (\<exists>segs. system_prompts_ref s = concat segs
        \<and> list_all2 (begins_with_parts h0 (store s)) (system_messages h0 seen) segs)"

definition outcome :: "addr \<Rightarrow> ref_state \<Rightarrow> ref_state \<Rightarrow> bool" where
  "outcome m s s' \<longleftrightarrow>
     (let role = read_field (store s') m ''role''
      in (if role = VStr ''system''
          then \<exists>ys. elements (store s') (read_field (store s') m ''content'') = Some ys
                 \<and> system_prompts_ref s' = system_prompts_ref s @ ys
          else system_prompts_ref s' = system_prompts_ref s)
         \<and> ((adapted_messages_ref s' = adapted_messages_ref s
               \<and> previous_was_user_ref s' = previous_was_user_ref s)
             \<or> (adapted_messages_ref s' = adapted_messages_ref s @ [m]
                 \<and> role \<noteq> VStr ''system''
                 \<and> (role = VStr ''user'' \<longrightarrow> \<not> previous_was_user_ref s)
                 \<and> previous_was_user_ref s' = (previous_was_user_ref s \<or> role = VStr ''user''))))"

section \<open>Token budget, dispatch and the stream transcoder\<close>

text \<open>
  \<open>PUTER_PROMPT\<close> is the template literal after \<open>.replace('\n', ' ').trim()\<close>: the
  first line break becomes a blank, and the blanks and line breaks at both ends go.
\<close>

definition PUTER_PROMPT :: string where
  "PUTER_PROMPT =
     ''You are running on an open-source platform called Puter,'' @ [CHR 0x0A] @
     ''    as the Claude implementation for a driver interface'' @ [CHR 0x0A] @
     ''    called puter-chat-completion.'' @ [CHR 0x0A] @
     ''    '' @ [CHR 0x0A] @
     ''    The following JSON contains system messages from the'' @ [CHR 0x0A] @
     ''    user of the driver interface (typically an app on Puter):''"

definition MAX_CLAUDE_INPUT_TOKENS :: int where
  "MAX_CLAUDE_INPUT_TOKENS = 10000"

definition get_default_model :: string where
  "get_default_model = ''claude-3-5-sonnet-latest''"

text \<open>
  The events of the provider's stream, with the fields the loop reads: \<open>type\<close>,
  \<open>delta.type\<close>, \<open>delta.text\<close>, \<open>usage\<close> and \<open>message.usage\<close>. A field that is
  absent or \<open>null\<close> is \<open>None\<close>; token counts are integers.
\<close>

record usage =
  input_tokens :: "int option"
  output_tokens :: "int option"

record delta =
  delta_type :: string
  delta_text :: "string option"

record stream_message =
  message_usage :: "usage option"

record event =
  event_type :: string
  event_delta :: "delta option"
  event_usage :: "usage option"
  event_message :: "stream_message option"

record counts =
  counts_input_tokens :: int
  counts_output_tokens :: int

record request =
  req_model :: string
  req_max_tokens :: int
  req_temperature :: int
  req_system :: string
  req_messages :: "json list"

text \<open>
  What \<open>complete\<close> does to the outside, in the order in which it does it: the two calls
  of the provider client, the next event taken from the provider's stream, a line written
  to the \<open>PassThrough\<close> stream, its end, and \<open>usage_promise.resolve\<close>. An exception in
  the background function is a rejection that nothing handles.
\<close>

datatype action =
    MessagesStream request
  | MessagesCreate request
  | NextEvent event
  | StreamWrite string
  | StreamEnd
  | UsageResolve counts
  | TaskRejected js_error

datatype outcome =
    Threw js_error
  | Intermediate
  | Returned json

text \<open>
  Lines 124 to 130: \<open>(event?.usage ?? event?.message?.usage)\<close>, read twice, and the
  two guarded additions.
\<close>

definition observed_usage :: "event \<Rightarrow> usage option" where
  "observed_usage event =
     (case event_usage event of
        Some u \<Rightarrow> Some u
      | None \<Rightarrow> (case event_message event of
                   None \<Rightarrow> None
                 | Some m \<Rightarrow> message_usage m))"

definition add_tokens :: "int option \<Rightarrow> int \<Rightarrow> int" where
  "add_tokens tokens acc =
     (case tokens of
        None \<Rightarrow> acc
      | Some n \<Rightarrow> if n \<noteq> 0 then acc + n else acc)"

definition count_tokens :: "event \<Rightarrow> counts \<Rightarrow> counts" where
  "count_tokens event c =
     (let inp = (case observed_usage event of None \<Rightarrow> None | Some u \<Rightarrow> input_tokens u);
          out = (case observed_usage event of None \<Rightarrow> None | Some u \<Rightarrow> output_tokens u)
      in c\<lparr>counts_input_tokens := add_tokens inp (counts_input_tokens c),
            counts_output_tokens := add_tokens out (counts_output_tokens c)\<rparr>)"

text \<open>
  Lines 136 to 139. \<open>JSON.stringify\<close> is the language's, and a parameter of the model.
\<close>

definition text_value :: "delta \<Rightarrow> json" where
  "text_value d = (case delta_text d of None \<Rightarrow> JUndefined | Some t \<Rightarrow> JStr t)"

definition stream_line :: "(json \<Rightarrow> string) \<Rightarrow> json \<Rightarrow> string" where
  "stream_line stringify text = stringify (JObj [(''text'', text)]) @ [CHR 0x0A]"

text \<open>
  The loop \<open>for await ( const event of completion )\<close> and the two statements after it
  (lines 123 to 142). \<open>event.delta.type\<close> throws when a \<open>content_block_delta\<close> event has
  no \<open>delta\<close>; the function then ends without closing the stream or resolving the
  promise.
\<close>

fun transcode :: "(json \<Rightarrow> string) \<Rightarrow> event list \<Rightarrow> counts \<Rightarrow> action list" where
  "transcode stringify [] c = [StreamEnd, UsageResolve c]"
| "transcode stringify (event # completion) c =
     NextEvent event #
       (let c = count_tokens event c
        in if event_type event \<noteq> ''content_block_delta''
           then transcode stringify completion c
           else (case event_delta event of
                   None \<Rightarrow> [TaskRejected TypeError]
                 | Some d \<Rightarrow>
                     if delta_type d \<noteq> ''text_delta''
                     then transcode stringify completion c
                     else StreamWrite (stream_line stringify (text_value d))
                            # transcode stringify completion c))"

definition stream_task :: "(json \<Rightarrow> string) \<Rightarrow> event list \<Rightarrow> action list" where
  "stream_task stringify completion =
     transcode stringify completion \<lparr>counts_input_tokens = 0, counts_output_tokens = 0\<rparr>"

text \<open>
  Lines 90 to 96: the length of the two serializations, divided by four. The division is
  JavaScript's on numbers, which is exact for a length and the divisor 4, so the estimate
  is a rational number.
\<close>

definition token_count :: "(json \<Rightarrow> string) \<Rightarrow> json list \<Rightarrow> json list \<Rightarrow> rat" where
  "token_count stringify adapted prompts =
     (let text = stringify (JArr adapted) @ stringify (JArr prompts)
      in of_nat (length text) / 4)"

definition claude_request ::
  "(json \<Rightarrow> string) \<Rightarrow> string option \<Rightarrow> json list \<Rightarrow> json list \<Rightarrow> request" where
  "claude_request stringify model adapted prompts =
     \<lparr>req_model = (case model of None \<Rightarrow> get_default_model | Some m \<Rightarrow> m),
      req_max_tokens = 1000,
      req_temperature = 0,
      req_system = PUTER_PROMPT @ stringify (JArr prompts),
      req_messages = adapted\<rparr>"

text \<open>
  \<open>complete\<close> from line 90 on, for the arrays the loop has built, and then the whole
  of it (named \<open>complete_chat\<close>, HOL having a \<open>complete\<close> of its own). The provider's
  answers are parameters: \<open>completion\<close> is the event sequence of \<open>messages.stream\<close>,
  \<open>response\<close> the result of \<open>messages.create\<close>.
\<close>

definition complete_adapted ::
  "(json \<Rightarrow> string) \<Rightarrow> event list \<Rightarrow> json \<Rightarrow> json list \<Rightarrow> json list \<Rightarrow> bool \<Rightarrow> string option
     \<Rightarrow> action list \<times> outcome" where
  "complete_adapted stringify completion response adapted prompts stream model =
     (let tokens = token_count stringify adapted prompts
      in if tokens > of_int MAX_CLAUDE_INPUT_TOKENS
         then ([], Threw (max_tokens_exceeded tokens MAX_CLAUDE_INPUT_TOKENS))
         else if stream
         then (MessagesStream (claude_request stringify model adapted prompts)
                 # stream_task stringify completion,
               Intermediate)
         else ([MessagesCreate (claude_request stringify model adapted prompts)],
               if nullish response then Threw TypeError
               else Returned (JObj [(''message'', response),
                                    (''usage'', js_get response ''usage''),
                                    (''finish_reason'', JStr ''stop'')])))"

definition complete_chat ::
  "(json \<Rightarrow> string) \<Rightarrow> event list \<Rightarrow> json \<Rightarrow> heap \<Rightarrow> addr list \<Rightarrow> bool \<Rightarrow> string option
     \<Rightarrow> action list \<times> outcome" where
  "complete_chat stringify completion response h messages stream model =
     (case adapt_messages h messages of
        Inl e \<Rightarrow> ([], Threw e)
      | Inr s \<Rightarrow> complete_adapted stringify completion response
                  (adapted_values s) (system_prompts s) stream model)"

subsection \<open>The transcoder in closed terms\<close>




fun written :: "action list \<Rightarrow> string list" where
  "written [] = []"
| "written (StreamWrite line # trace) = line # written trace"
| "written (a # trace) = written trace"







section \<open>Example data\<close>

text \<open>
  A conversation of four messages, one tool in each of the three accepted shapes, and the
  events of a short stream. \<open>sample_stringify\<close> stands in for \<open>JSON.stringify\<close> where an
  example needs a concrete serializer; it is used on objects with one string field.
\<close>

definition text_part :: "string \<Rightarrow> json" where
  "text_part t = JObj [(''type'', JStr ''text''), (''text'', JStr t)]"

definition conversation :: heap where
  "conversation =
     (\<lambda>a. [])
       (0 := [(''role'', JStr ''user''), (''content'', JStr ''a'')],
        1 := [(''role'', JStr ''assistant''), (''content'', JStr ''b'')],
        2 := [(''role'', JStr ''user''), (''content'', JStr ''c'')],
        3 := [(''role'', JStr ''system''), (''content'', JStr ''s'')])"

definition object_schema :: json where
  "object_schema = JObj [(''type'', JStr ''object'')]"

definition claude_shaped :: json where
  "claude_shaped = JObj [(''name'', JStr ''foo''), (''input_schema'', object_schema)]"

definition openai_shaped :: json where
  "openai_shaped =
     JObj [(''type'', JStr ''function''),
           (''function'', JObj [(''name'', JStr ''bar''), (''description'', JStr ''d''),
                                (''parameters'', object_schema)])]"

definition bare_shaped :: json where
  "bare_shaped = JObj [(''name'', JStr ''baz''), (''description'', JStr ''e'')]"



definition usage_event :: event where
  "usage_event =
     \<lparr>event_type = ''message_delta'',
      event_delta = None,
      event_usage = Some \<lparr>input_tokens = None, output_tokens = Some 7\<rparr>,
      event_message = Some \<lparr>message_usage = Some \<lparr>input_tokens = Some 100, output_tokens = Some 200\<rparr>\<rparr>\<rparr>"


text \<open>
  A store in which a history entry (cell 2) and the message sent for it (cell 3, a shallow
  copy) hold the same content array (cell 0), followed by a new message without a role.
\<close>

definition shared_content :: store where
  "shared_content =
     [Arr [VRef 1],
      Obj [(''type'', VStr ''text''), (''text'', VStr ''p'')],
      Obj [(''role'', VStr ''user''), (''content'', VRef 0), (''id'', VNum 7)],
      Obj [(''role'', VStr ''user''), (''content'', VRef 0)],
      Obj [(''content'', VStr ''x'')]]"

text \<open>The conversation above as cells of a store.\<close>

definition conversation_cells :: store where
  "conversation_cells =
     [Obj [(''role'', VStr ''user''), (''content'', VStr ''a'')],
      Obj [(''role'', VStr ''assistant''), (''content'', VStr ''b'')],
      Obj [(''role'', VStr ''user''), (''content'', VStr ''c'')],
      Obj [(''role'', VStr ''system''), (''content'', VStr ''s'')]]"

section \<open>Properties of tool normalization\<close>

lemma field_Nil: "field [] k = JUndefined"
  by (simp add: field_def)

lemma field_Cons: "field ((k', v) # kvs) k = (if k = k' then v else field kvs k)"
  by (simp add: field_def)

lemma nullish_not_truthy: "nullish v \<Longrightarrow> \<not> truthy v"
  by (cases v) simp_all

lemma normalize_function_eq:
  "\<not> nullish fn \<Longrightarrow>
   normalize_function fn =
     Inr (JObj ((''parameters'', chosen_parameters fn)
            # optional_field ''name'' (js_get fn ''name'')
            @ optional_field ''description'' (js_get fn ''description'')))"
  by (simp add: normalize_function_def chosen_parameters_def optional_field_def js_or_def
      js_coalesce_def set_field_def Let_def nullish_not_truthy)

lemma normalize_function_nullish: "nullish fn \<Longrightarrow> normalize_function fn = Inl TypeError"
  by (simp add: normalize_function_def)

lemma normalize_tool_eq:
  "normalize_tool tool = (if has_descriptor tool then Inr (canonical_tool tool) else Inl TypeError)"
  by (auto simp: normalize_tool_def has_descriptor_def descriptor_def canonical_tool_def
      function_tool_def normalize_function_eq normalize_function_nullish Let_def)

lemma normalize_loop_eq:
  "i \<le> length tools \<Longrightarrow>
   normalize_loop i tools =
     (if \<forall>t \<in> set (drop i tools). has_descriptor t
      then Inr (take i tools @ map canonical_tool (drop i tools))
      else Inl TypeError)"
proof (induction i tools rule: normalize_loop.induct)
  case (1 i tools)
  show ?case
  proof (cases "i < length tools")
    case False
    with "1.prems" show ?thesis by (simp add: normalize_loop.simps)
  next
    case True
    then have d: "drop i tools = tools ! i # drop (Suc i) tools"
      by (simp add: Cons_nth_drop_Suc)
    show ?thesis
    proof (cases "has_descriptor (tools ! i)")
      case False
      with True d show ?thesis
        by (subst normalize_loop.simps) (simp add: normalize_tool_eq)
    next
      case hd: True
      have ih: "normalize_loop (i + 1) (tools[i := canonical_tool (tools ! i)]) =
         (if \<forall>t \<in> set (drop (i + 1) (tools[i := canonical_tool (tools ! i)])). has_descriptor t
          then Inr (take (i + 1) (tools[i := canonical_tool (tools ! i)])
                 @ map canonical_tool (drop (i + 1) (tools[i := canonical_tool (tools ! i)])))
          else Inl TypeError)"
        using "1.IH" [OF True, of "canonical_tool (tools ! i)"] True hd
        by (simp add: normalize_tool_eq)
      have t: "take (Suc i) (tools[i := canonical_tool (tools ! i)]) = take i tools @ [canonical_tool (tools ! i)]"
        using True by (simp add: take_Suc_conv_app_nth)
      show ?thesis
        using True hd d ih t
        by (subst normalize_loop.simps) (simp add: normalize_tool_eq)
    qed
  qed
qed

lemma normalize_tools_object_eq:
  "normalize_tools_object tools =
     (if \<forall>t \<in> set tools. has_descriptor t then Inr (map canonical_tool tools) else Inl TypeError)"
  using normalize_loop_eq [of 0 tools] by (simp add: normalize_tools_object_def)

lemma chosen_parameters_truthy:
  "input_schema_usable tool \<Longrightarrow> truthy (chosen_parameters (descriptor tool))"
  by (auto simp: input_schema_usable_def chosen_parameters_def Let_def)

lemma descriptor_canonical_tool:
  "descriptor (canonical_tool tool) =
     JObj ((''parameters'', chosen_parameters (descriptor tool))
        # optional_field ''name'' (js_get (descriptor tool) ''name'')
        @ optional_field ''description'' (js_get (descriptor tool) ''description''))"
  by (simp add: descriptor_def canonical_tool_def Let_def field_Cons field_Nil)

lemma has_descriptor_canonical_tool: "has_descriptor (canonical_tool tool)"
  by (simp add: has_descriptor_def descriptor_canonical_tool) (simp add: canonical_tool_def Let_def)

lemma canonical_fields:
  "field ((''parameters'', p) # optional_field ''name'' n @ optional_field ''description'' d) ''parameters'' = p"
  "field ((''parameters'', p) # optional_field ''name'' n @ optional_field ''description'' d) ''input_schema'' = JUndefined"
  "field ((''parameters'', p) # optional_field ''name'' n @ optional_field ''description'' d) ''name'' = kept n"
  "field ((''parameters'', p) # optional_field ''name'' n @ optional_field ''description'' d) ''description'' = kept d"
  by (simp_all add: optional_field_def field_Cons field_Nil kept_def)

lemma optional_field_kept: "optional_field k (kept v) = optional_field k v"
  by (simp add: optional_field_def kept_def)

lemma canonical_tool_again:
  "canonical_tool (canonical_tool tool) = canonical_tool tool
     \<longleftrightarrow> truthy (chosen_parameters (descriptor tool))"
proof -
  let ?p = "chosen_parameters (descriptor tool)"
  have "chosen_parameters (descriptor (canonical_tool tool)) =
          (if truthy ?p then ?p else JObj [(''type'', JStr ''object'')])"
    by (simp add: descriptor_canonical_tool chosen_parameters_def [of "JObj _"] canonical_fields)
  then have "canonical_tool (canonical_tool tool) =
      JObj [(''type'', JStr ''function''),
            (''function'', JObj ((''parameters'', if truthy ?p then ?p else JObj [(''type'', JStr ''object'')])
               # optional_field ''name'' (js_get (descriptor tool) ''name'')
               @ optional_field ''description'' (js_get (descriptor tool) ''description'')))]"
    by (simp add: canonical_tool_def [of "canonical_tool tool"] descriptor_canonical_tool
        canonical_fields optional_field_kept Let_def)
  moreover have "\<not> truthy ?p \<Longrightarrow> ?p \<noteq> JObj [(''type'', JStr ''object'')]"
    by auto
  ultimately show ?thesis
    by (auto simp: canonical_tool_def Let_def)
qed

lemma normalize_twice:
  assumes "normalize_tools_object tools = Inr out"
  shows "normalize_tools_object out = Inr out
           \<longleftrightarrow> (\<forall>t \<in> set tools. truthy (chosen_parameters (descriptor t)))"
proof -
  from assms have out: "out = map canonical_tool tools"
    by (simp add: normalize_tools_object_eq split: if_splits)
  have "normalize_tools_object out = Inr (map canonical_tool out)"
    by (simp add: normalize_tools_object_eq out has_descriptor_canonical_tool)
  then show ?thesis
    by (simp add: out canonical_tool_again)
qed

lemma claude_tool_canonical: "claude_tool (canonical_tool tool) = Inr (claude_entry tool)"
  by (simp add: claude_tool_def canonical_tool_def claude_entry_def Let_def field_Cons [of "''type''"]
      field_Cons [of "''function''"] canonical_fields)

text \<open>
  Where every tool has a function descriptor (the tool itself, or \<open>tool.function\<close> when
  \<open>tool.type\<close> is \<open>'function'\<close> and \<open>tool.input_schema\<close> is falsy) that is neither \<open>null\<close>
  nor \<open>undefined\<close>, normalization returns, and the entry written for a tool is
  \<open>{ type: 'function', function: { parameters, name?, description? } }\<close> as
  \<open>canonical_tool\<close> has it.
\<close>

lemma normalize_tools_object_canonical:
  assumes "\<forall>t \<in> set tools. has_descriptor t"
  shows "normalize_tools_object tools = Inr (map canonical_tool tools)"
  using assms by (simp add: normalize_tools_object_eq)

text \<open>The three accepted shapes, normalized.\<close>

lemma three_shapes_normalized:
  "normalize_tools_object [claude_shaped, openai_shaped, bare_shaped] =
     Inr [JObj [(''type'', JStr ''function''),
                (''function'', JObj [(''parameters'', object_schema), (''name'', JStr ''foo'')])],
          JObj [(''type'', JStr ''function''),
                (''function'', JObj [(''parameters'', object_schema), (''name'', JStr ''bar''),
                                     (''description'', JStr ''d'')])],
          JObj [(''type'', JStr ''function''),
                (''function'', JObj [(''parameters'', object_schema), (''name'', JStr ''baz''),
                                     (''description'', JStr ''e'')])]]"
proof -
  have "\<forall>t \<in> set [claude_shaped, openai_shaped, bare_shaped]. has_descriptor t"
    by (simp add: has_descriptor_def descriptor_def claude_shaped_def openai_shaped_def
        bare_shaped_def object_schema_def field_def)
  from normalize_tools_object_canonical [OF this] show ?thesis
    by (simp add: canonical_tool_def descriptor_def chosen_parameters_def optional_field_def
        claude_shaped_def openai_shaped_def bare_shaped_def object_schema_def field_def)
qed

text \<open>
  C5. Every tool of the input is to get an output entry
  \<open>{ type: 'function', function: { name?, description?, parameters } }\<close>. A tool with
  \<open>type: 'function'\<close> that carries \<open>name\<close> and \<open>parameters\<close> at top level has no
  \<open>function\<close> field: line 50 passes \<open>undefined\<close> to \<open>normalize_function\<close>, whose first
  property read throws, and no entry is written. The same tool without \<open>type\<close> goes
  through the last branch and gets the entry the claim describes.
\<close>

theorem function_tool_without_function_throws:
  "normalize_tools_object
     [JObj [(''type'', JStr ''function''), (''name'', JStr ''f''), (''parameters'', object_schema)]]
   = Inl TypeError
   \<and> normalize_tools_object
       [JObj [(''name'', JStr ''f''), (''parameters'', object_schema)]]
     = Inr [JObj [(''type'', JStr ''function''),
                  (''function'', JObj [(''parameters'', object_schema), (''name'', JStr ''f'')])]]"
  by (simp add: normalize_tools_object_eq has_descriptor_def descriptor_def canonical_tool_def
      chosen_parameters_def optional_field_def object_schema_def field_def)

text \<open>
  C6, as the code has it. Normalizing the output of a normalization gives that output
  again, for every sequence of tool definitions on which the first normalization returns
  and in which an \<open>input_schema\<close>, where there is one, is truthy, as every schema object
  is.
\<close>

theorem normalize_idempotent:
  assumes "normalize_tools_object tools = Inr out"
    and "\<forall>t \<in> set tools. input_schema_usable t"
  shows "normalize_tools_object out = Inr out"
  using assms normalize_twice [OF assms(1)] by (simp add: chosen_parameters_truthy)

text \<open>
  The claim as worded covers every sequence. An \<open>input_schema\<close> that is the empty string
  is falsy and not nullish: \<open>||\<close> selects it, \<open>??\<close> keeps it, and the second
  normalization, which finds it as a falsy \<open>parameters\<close>, puts the default in its place.
\<close>

theorem empty_input_schema_not_stable:
  "normalize_tools_object [JObj [(''name'', JStr ''f''), (''input_schema'', JStr '''')]]
     = Inr [JObj [(''type'', JStr ''function''),
                  (''function'', JObj [(''parameters'', JStr ''''), (''name'', JStr ''f'')])]]
   \<and> normalize_tools_object
       [JObj [(''type'', JStr ''function''),
              (''function'', JObj [(''parameters'', JStr ''''), (''name'', JStr ''f'')])]]
     = Inr [JObj [(''type'', JStr ''function''),
                  (''function'', JObj [(''parameters'', object_schema), (''name'', JStr ''f'')])]]"
  by (simp add: normalize_tools_object_eq has_descriptor_def canonical_tool_def descriptor_def
      chosen_parameters_def optional_field_def object_schema_def field_def)

text \<open>A Claude-shaped and a bare tool: their normal form is a fixed point.\<close>

theorem normalize_idempotent_witness:
  "normalize_tools_object
     [JObj [(''type'', JStr ''function''),
            (''function'', JObj [(''parameters'', object_schema), (''name'', JStr ''foo'')])],
      JObj [(''type'', JStr ''function''),
            (''function'', JObj [(''parameters'', object_schema), (''name'', JStr ''baz''),
                                 (''description'', JStr ''e'')])]]
   = Inr [JObj [(''type'', JStr ''function''),
            (''function'', JObj [(''parameters'', object_schema), (''name'', JStr ''foo'')])],
      JObj [(''type'', JStr ''function''),
            (''function'', JObj [(''parameters'', object_schema), (''name'', JStr ''baz''),
                                 (''description'', JStr ''e'')])]]"
proof -
  have first: "normalize_tools_object [claude_shaped, bare_shaped] =
     Inr [JObj [(''type'', JStr ''function''),
            (''function'', JObj [(''parameters'', object_schema), (''name'', JStr ''foo'')])],
      JObj [(''type'', JStr ''function''),
            (''function'', JObj [(''parameters'', object_schema), (''name'', JStr ''baz''),
                                 (''description'', JStr ''e'')])]]"
    by (simp add: normalize_tools_object_eq has_descriptor_def canonical_tool_def descriptor_def
        chosen_parameters_def optional_field_def claude_shaped_def bare_shaped_def
        object_schema_def field_def)
  have usable: "\<forall>t \<in> set [claude_shaped, bare_shaped]. input_schema_usable t"
    by (simp add: input_schema_usable_def descriptor_def claude_shaped_def bare_shaped_def
        object_schema_def field_def)
  show ?thesis by (rule normalize_idempotent [OF first usable])
qed

text \<open>
  C7, as the code has it. For every tool sequence on which normalization returns,
  \<open>make_claude_tools\<close> of the normalized sequence maps each tool, in order, to
  \<open>{ name, description, input_schema }\<close>: \<open>name\<close> and \<open>description\<close> are the
  descriptor's when truthy and \<open>undefined\<close> otherwise, \<open>input_schema\<close> is the chosen
  \<open>parameters\<close>. \<open>make_claude_tools\<close> of a falsy value is \<open>undefined\<close>.
\<close>

theorem claude_shape_of_normalized:
  "((\<forall>t \<in> set tools. has_descriptor t) \<longrightarrow>
      claude_of_normalized tools = Inr (JArr (map claude_entry tools)))
   \<and> (\<not> truthy v \<longrightarrow> make_claude_tools v = Inr JUndefined)"
proof (intro conjI impI)
  assume "\<forall>t \<in> set tools. has_descriptor t"
  then have norm: "normalize_tools_object tools = Inr (map canonical_tool tools)"
    by (simp add: normalize_tools_object_eq)
  have "map_throwing claude_tool (map canonical_tool tools) = Inr (map claude_entry tools)"
    by (induction tools) (simp_all add: claude_tool_canonical)
  then show "claude_of_normalized tools = Inr (JArr (map claude_entry tools))"
    by (simp add: claude_of_normalized_def norm make_claude_tools_def)
next
  assume "\<not> truthy v"
  then show "make_claude_tools v = Inr JUndefined"
    by (simp add: make_claude_tools_def)
qed

text \<open>
  The claim as worded has every description preserved. An empty description is falsy:
  normalization drops it, and the Claude shape has \<open>undefined\<close> in its place.
\<close>

theorem empty_description_not_preserved:
  "claude_of_normalized
     [JObj [(''name'', JStr ''f''), (''description'', JStr ''''), (''input_schema'', object_schema)]]
   = Inr (JArr [JObj [(''name'', JStr ''f''), (''description'', JUndefined),
                      (''input_schema'', object_schema)]])"
  by (simp add: claude_of_normalized_def normalize_tools_object_eq has_descriptor_def
      canonical_tool_def descriptor_def chosen_parameters_def optional_field_def
      make_claude_tools_def claude_tool_def object_schema_def field_def)

text \<open>The three accepted shapes, in Claude's shape.\<close>

theorem claude_shape_of_normalized_witness:
  "claude_of_normalized [claude_shaped, openai_shaped, bare_shaped] =
     Inr (JArr [JObj [(''name'', JStr ''foo''), (''description'', JUndefined),
                      (''input_schema'', object_schema)],
                JObj [(''name'', JStr ''bar''), (''description'', JStr ''d''),
                      (''input_schema'', object_schema)],
                JObj [(''name'', JStr ''baz''), (''description'', JStr ''e''),
                      (''input_schema'', object_schema)]])
   \<and> make_claude_tools JNull = Inr JUndefined"
proof -
  have "\<forall>t \<in> set [claude_shaped, openai_shaped, bare_shaped]. has_descriptor t"
    by (simp add: has_descriptor_def descriptor_def claude_shaped_def openai_shaped_def
        bare_shaped_def object_schema_def field_def)
  with claude_shape_of_normalized [of "[claude_shaped, openai_shaped, bare_shaped]" JNull]
  show ?thesis
    by (simp add: claude_entry_def descriptor_def chosen_parameters_def kept_def
        claude_shaped_def openai_shaped_def bare_shaped_def object_schema_def field_def)
qed

section \<open>Properties of the message adapter\<close>

lemma field_set_field: "field (set_field k v m) k' = (if k' = k then v else field m k')"
  by (simp add: field_def set_field_def update_conv')

lemma normalize_message_role: "field (normalize_message m) ''role'' = effective_role m"
  by (simp add: normalize_message_def default_role_def wrap_content_in_array_def
      wrap_string_content_def effective_role_def field_set_field split: json.splits)

lemma normalize_message_content: "field (normalize_message m) ''content'' = JArr (content_parts m)"
  by (simp add: normalize_message_def default_role_def wrap_content_in_array_def
      wrap_string_content_def content_parts_def field_set_field whatis_def split: json.splits)

lemma normalize_message_other:
  "k \<noteq> ''role'' \<Longrightarrow> k \<noteq> ''content'' \<Longrightarrow> field (normalize_message m) k = field m k"
  by (simp add: normalize_message_def default_role_def wrap_content_in_array_def
      wrap_string_content_def field_set_field split: json.splits)

lemma effective_role_truthy: "truthy (effective_role m)"
  by (simp add: effective_role_def)

lemma effective_role_id: "truthy (field m ''role'') \<Longrightarrow> effective_role m = field m ''role''"
  by (simp add: effective_role_def)

lemma effective_role_system:
  "effective_role m = JStr ''system'' \<longleftrightarrow> field m ''role'' = JStr ''system''"
  by (auto simp: effective_role_def)

lemma effective_role_cong:
  "field m' ''role'' = field m ''role'' \<Longrightarrow> effective_role m' = effective_role m"
  by (simp add: effective_role_def)

lemma effective_role_idem:
  "field m' ''role'' = effective_role m \<Longrightarrow> effective_role m' = effective_role m"
  by (simp add: effective_role_def)

lemma content_parts_array: "field m ''content'' = JArr xs \<Longrightarrow> content_parts m = xs"
  by (simp add: content_parts_def)

lemma content_parts_cong:
  "field m' ''content'' = field m ''content'' \<Longrightarrow> content_parts m' = content_parts m"
  by (simp add: content_parts_def)

lemma adapt_message_eq:
  assumes "adapter_inv s"
  shows "adapt_message a s = Inr (adapt_result a s)"
proof (cases "merges a s")
  case True
  let ?l = "last (adapted_messages s)"
  from True assms have ne: "adapted_messages s \<noteq> []"
    by (simp add: adapter_inv_def merges_def)
  then have "?l \<in> set (adapted_messages s)" by simp
  with assms obtain xs where "field (heap s ?l) ''content'' = JArr xs"
    by (auto simp: adapter_inv_def)
  then obtain ys where ys: "field (normalized_heap a s ?l) ''content'' = JArr ys"
    by (cases "?l = a") (simp_all add: normalized_heap_def normalize_message_content)
  then have cp: "content_parts (normalized_heap a s ?l) = ys"
    by (rule content_parts_array)
  have role: "field (normalized_heap a s a) ''role'' = JStr ''user''"
    using True by (simp add: normalized_heap_def normalize_message_role merges_def)
  have content: "field (normalized_heap a s a) ''content'' = JArr (content_parts (heap s a))"
    by (simp add: normalized_heap_def normalize_message_content)
  have pwu: "previous_was_user s" using True by (simp add: merges_def)
  show ?thesis
    unfolding adapt_message_def adapt_result_def Let_def normalized_heap_def [symmetric]
    using True ne ys cp role content pwu by simp
next
  case False
  have role: "field (normalized_heap a s a) ''role'' = effective_role (heap s a)"
    by (simp add: normalized_heap_def normalize_message_role)
  have content: "field (normalized_heap a s a) ''content'' = JArr (content_parts (heap s a))"
    by (simp add: normalized_heap_def normalize_message_content)
  show ?thesis
    unfolding adapt_message_def adapt_result_def Let_def normalized_heap_def [symmetric]
    using False role content by (auto simp: merges_def)
qed

lemma adapt_result_role:
  "field (heap (adapt_result a s) b) ''role'' =
     (if b = a then effective_role (heap s a) else field (heap s b) ''role'')"
  by (simp add: adapt_result_def Let_def normalized_heap_def field_set_field normalize_message_role)

lemma adapt_result_content:
  "\<exists>extra. field (heap (adapt_result a s) b) ''content'' =
     (if b = a \<or> (merges a s \<and> b = last (adapted_messages s))
      then JArr (content_parts (heap s b) @ extra)
      else field (heap s b) ''content'')
    \<and> (extra \<noteq> [] \<longrightarrow> merges a s \<and> b = last (adapted_messages s))"
  by (auto simp: adapt_result_def Let_def normalized_heap_def field_set_field
      normalize_message_content content_parts_array)

lemma adapt_result_frame:
  "b \<noteq> a \<Longrightarrow> \<not> (merges a s \<and> b = last (adapted_messages s)) \<Longrightarrow>
   heap (adapt_result a s) b = heap s b"
  by (auto simp: adapt_result_def Let_def normalized_heap_def)

lemma adapt_result_adapted:
  "adapted_messages (adapt_result a s) =
     (if merges a s \<or> effective_role (heap s a) = JStr ''system''
      then adapted_messages s else adapted_messages s @ [a])"
  by (simp add: adapt_result_def Let_def)

lemma adapt_result_previous_was_user:
  "previous_was_user (adapt_result a s) =
     (if merges a s \<or> effective_role (heap s a) = JStr ''system''
      then previous_was_user s
      else effective_role (heap s a) = JStr ''user'' \<or> previous_was_user s)"
  by (simp add: adapt_result_def Let_def)

lemma adapt_result_system_prompts:
  "system_prompts (adapt_result a s) =
     system_prompts s @
       (if field (heap s a) ''role'' = JStr ''system'' then content_parts (heap s a) else [])"
  by (auto simp: adapt_result_def Let_def merges_def effective_role_def split: if_splits)

lemma role_of_adapted:
  assumes "adapter_inv s" and "b \<in> set (adapted_messages s)"
  shows "field (heap (adapt_result a s) b) ''role'' = field (heap s b) ''role''"
  using assms by (auto simp: adapt_result_role adapter_inv_def effective_role_id)

lemma adapter_inv_step:
  assumes inv: "adapter_inv s"
  shows "adapter_inv (adapt_result a s)"
proof -
  let ?s = "adapt_result a s"
  have roles: "\<forall>b \<in> set (adapted_messages s).
      field (heap ?s b) ''role'' = field (heap s b) ''role''"
    using inv by (simp add: role_of_adapted)
  have arr: "\<And>b. (\<exists>xs. field (heap s b) ''content'' = JArr xs) \<Longrightarrow>
      \<exists>xs. field (heap ?s b) ''content'' = JArr xs"
    using adapt_result_content [of a s] by (metis (full_types))
  have filt: "filter (\<lambda>b. field (heap ?s b) ''role'' = JStr ''user'') (adapted_messages s)
      = filter (\<lambda>b. field (heap s b) ''role'' = JStr ''user'') (adapted_messages s)"
    using roles by (auto intro: filter_cong)
  have new_arr: "\<exists>xs. field (heap ?s a) ''content'' = JArr xs"
    using adapt_result_content [of a s a] by auto
  show ?thesis
  proof (cases "merges a s \<or> effective_role (heap s a) = JStr ''system''")
    case True
    then show ?thesis
      using inv roles arr filt
      by (simp add: adapter_inv_def adapt_result_adapted adapt_result_previous_was_user)
  next
    case False
    have "field (heap ?s a) ''role'' = effective_role (heap s a)"
      by (simp add: adapt_result_role)
    then show ?thesis
      using False inv roles arr filt new_arr
      by (auto simp: adapter_inv_def adapt_result_adapted adapt_result_previous_was_user
          effective_role_truthy merges_def)
  qed
qed

lemma adapt_loop_eq:
  "adapter_inv s \<Longrightarrow>
   adapt_loop messages s = Inr (fold adapt_result messages s)
   \<and> adapter_inv (fold adapt_result messages s)"
  by (induction messages arbitrary: s) (simp_all add: adapt_message_eq adapter_inv_step)

lemma adapter_inv_initial:
  "adapter_inv \<lparr>heap = h, adapted_messages = [], system_prompts = [], previous_was_user = False\<rparr>"
  by (simp add: adapter_inv_def)

lemma system_stable:
  assumes inv: "adapter_inv s"
  shows "(field (heap (adapt_result a s) b) ''role'' = JStr ''system'')
           = (field (heap s b) ''role'' = JStr ''system'')"
    and "field (heap s b) ''role'' = JStr ''system'' \<Longrightarrow>
         content_parts (heap (adapt_result a s) b) = content_parts (heap s b)"
proof -
  show "(field (heap (adapt_result a s) b) ''role'' = JStr ''system'')
           = (field (heap s b) ''role'' = JStr ''system'')"
    by (simp add: adapt_result_role effective_role_system)
next
  assume sys: "field (heap s b) ''role'' = JStr ''system''"
  have not_target: "\<not> (merges a s \<and> b = last (adapted_messages s))"
  proof
    assume m: "merges a s \<and> b = last (adapted_messages s)"
    with inv have "adapted_messages s \<noteq> []" by (simp add: adapter_inv_def merges_def)
    with m have "b \<in> set (adapted_messages s)" by simp
    with inv sys show False by (auto simp: adapter_inv_def)
  qed
  show "content_parts (heap (adapt_result a s) b) = content_parts (heap s b)"
  proof (cases "b = a")
    case True
    from adapt_result_content [of a s b] True not_target
    have "field (heap (adapt_result a s) b) ''content'' = JArr (content_parts (heap s b))"
      by auto
    then show ?thesis by (rule content_parts_array)
  next
    case False
    with not_target have "heap (adapt_result a s) b = heap s b"
      by (simp add: adapt_result_frame)
    then show ?thesis by simp
  qed
qed

lemma fold_system_prompts:
  "adapter_inv s \<Longrightarrow>
   system_prompts (fold adapt_result messages s) =
     system_prompts s @
       concat (map (\<lambda>a. content_parts (heap s a))
                 (filter (\<lambda>a. field (heap s a) ''role'' = JStr ''system'') messages))"
proof (induction messages arbitrary: s)
  case Nil
  then show ?case by simp
next
  case (Cons a messages)
  let ?s = "adapt_result a s"
  have inv': "adapter_inv ?s" using Cons.prems by (rule adapter_inv_step)
  have f: "filter (\<lambda>b. field (heap ?s b) ''role'' = JStr ''system'') messages
         = filter (\<lambda>b. field (heap s b) ''role'' = JStr ''system'') messages"
    using system_stable(1) [OF Cons.prems] by simp
  have m: "map (\<lambda>b. content_parts (heap ?s b))
             (filter (\<lambda>b. field (heap s b) ''role'' = JStr ''system'') messages)
         = map (\<lambda>b. content_parts (heap s b))
             (filter (\<lambda>b. field (heap s b) ''role'' = JStr ''system'') messages)"
    using system_stable(2) [OF Cons.prems] by (auto intro: map_cong)
  show ?case
    using Cons.IH [OF inv'] f m by (simp add: adapt_result_system_prompts)
qed

lemma at_most_one_not_consecutive:
  "length (filter (has_role ''user'') ms) \<le> 1 \<Longrightarrow> \<not> consecutive_users ms"
  by (induction ms rule: consecutive_users.induct) (auto split: if_splits)

text \<open>
  C1. For every store and every sequence of messages the loop returns, and then no entry
  of \<open>adapted_messages\<close> has the role \<open>'system'\<close>, no two neighbouring entries have the
  role \<open>'user'\<close>, and \<open>system_prompts\<close> is the content parts of the system messages, in
  the order in which the messages come.
\<close>

theorem adapted_messages_invariant:
  "\<exists>s. adapt_messages h messages = Inr s
     \<and> (\<forall>m \<in> set (adapted_values s). \<not> has_role ''system'' m)
     \<and> \<not> consecutive_users (adapted_values s)
     \<and> system_prompts s =
         concat (map (\<lambda>a. content_parts (h a))
                   (filter (\<lambda>a. field (h a) ''role'' = JStr ''system'') messages))"
proof -
  let ?init = "\<lparr>heap = h, adapted_messages = [], system_prompts = [], previous_was_user = False\<rparr>"
  let ?s = "fold adapt_result messages ?init"
  have run: "adapt_messages h messages = Inr ?s" and inv: "adapter_inv ?s"
    using adapt_loop_eq [OF adapter_inv_initial, of messages h] by (simp_all add: adapt_messages_def)
  have no_system: "\<forall>m \<in> set (adapted_values ?s). \<not> has_role ''system'' m"
    using inv by (auto simp: adapter_inv_def adapted_values_def has_role_def)
  have "filter (has_role ''user'') (adapted_values ?s)
      = map (\<lambda>a. JObj (heap ?s a))
          (filter (\<lambda>a. field (heap ?s a) ''role'' = JStr ''user'') (adapted_messages ?s))"
    by (simp add: adapted_values_def filter_map comp_def has_role_def)
  then have "length (filter (has_role ''user'') (adapted_values ?s)) \<le> 1"
    using inv by (simp add: adapter_inv_def split: if_splits)
  then have no_pair: "\<not> consecutive_users (adapted_values ?s)"
    by (rule at_most_one_not_consecutive)
  have "system_prompts ?s =
         concat (map (\<lambda>a. content_parts (h a))
                   (filter (\<lambda>a. field (h a) ''role'' = JStr ''system'') messages))"
    using fold_system_prompts [OF adapter_inv_initial, of messages h] by simp
  with run no_system no_pair show ?thesis by blast
qed

text \<open>A system message, two user messages and an assistant message.\<close>

theorem adapted_messages_invariant_witness:
  "\<exists>s. adapt_messages conversation [3, 0, 2, 1] = Inr s
     \<and> (\<forall>m \<in> set (adapted_values s). \<not> has_role ''system'' m)
     \<and> \<not> consecutive_users (adapted_values s)
     \<and> system_prompts s = [text_part ''s'']"
  using adapted_messages_invariant [of conversation "[3, 0, 2, 1]"]
  by (simp add: conversation_def text_part_def content_parts_def field_def)

text \<open>
  C2. A user message is to be merged only when the entry placed last is a user message,
  and placed as a new entry after an assistant message. The flag \<open>previous_was_user\<close> is
  never cleared: in the conversation user, assistant, user the third message's part is
  appended to the assistant's entry.
\<close>

theorem user_after_assistant_merged:
  "normalize_messages conversation [0, 1, 2] =
     Inr ([JObj [(''role'', JStr ''user''), (''content'', JArr [text_part ''a''])],
           JObj [(''role'', JStr ''assistant''),
                 (''content'', JArr [text_part ''b'', text_part ''c''])]],
          [])"
  by (simp add: normalize_messages_def adapt_messages_def adapt_message_def normalize_message_def
      wrap_string_content_def wrap_content_in_array_def default_role_def whatis_def
      adapted_values_def conversation_def text_part_def field_def set_field_def Let_def)

section \<open>Properties of the message adapter on the store\<close>

lemma cell_at_append:
  "cell_at (h @ [c]) b =
     (if b < length h then cell_at h b else if b = length h then Some c else None)"
  by (simp add: cell_at_def nth_append)

lemma length_write_field: "length (write_field a k v h) = length h"
  by (simp add: write_field_def split: option.splits cell.splits)

lemma cell_at_write_field:
  "cell_at (write_field a k v h) b =
     (if b = a then (case cell_at h a of
                       Some (Obj fs) \<Rightarrow> Some (Obj (AList.update k v fs))
                     | c \<Rightarrow> c)
      else cell_at h b)"
  by (auto simp: write_field_def cell_at_def split: option.splits cell.splits)

lemma is_obj_write_field: "is_obj (write_field a k v h) b = is_obj h b"
  by (simp add: is_obj_def cell_at_write_field split: option.splits cell.splits)

lemma read_field_write_field:
  "read_field (write_field a k v h) b k' =
     (if b = a \<and> k' = k \<and> is_obj h a then v else read_field h b k')"
  by (auto simp: read_field_def cell_at_write_field is_obj_def update_conv'
      split: option.splits cell.splits)

lemma elements_write_field: "elements (write_field a k v h) x = elements h x"
  by (auto simp: elements_def cell_at_write_field split: val.splits option.splits cell.splits)

lemma is_array_write_field: "is_array (write_field a k v h) x = is_array h x"
  by (simp add: is_array_def elements_write_field)

lemma nth_write_field: "b \<noteq> a \<Longrightarrow> write_field a k v h ! b = h ! b"
  by (simp add: write_field_def split: option.splits cell.splits)

lemma is_obj_append: "is_obj h b \<Longrightarrow> is_obj (h @ [c]) b"
  by (auto simp: is_obj_def cell_at_def nth_append split: if_splits)

lemma is_obj_less: "is_obj h b \<Longrightarrow> b < length h"
  by (auto simp: is_obj_def cell_at_def split: if_splits)

lemma read_field_append: "b < length h \<Longrightarrow> read_field (h @ [c]) b k = read_field h b k"
  by (simp add: read_field_def cell_at_append)

lemma elements_append_old:
  "elements h x = Some xs \<Longrightarrow> elements (h @ [c]) x = Some xs"
  by (auto simp: elements_def cell_at_def nth_append split: val.splits if_splits cell.splits)

lemma elements_less: "elements h (VRef r) = Some xs \<Longrightarrow> r < length h \<and> h ! r = Arr xs"
  by (auto simp: elements_def cell_at_def split: if_splits cell.splits)

lemma elements_ref: "elements h x = Some xs \<Longrightarrow> \<exists>r. x = VRef r"
  by (auto simp: elements_def split: val.splits)

lemma whatis_ref_array: "whatis_ref h v = ''array'' \<longleftrightarrow> is_array h v"
  by (simp add: whatis_ref_def is_array_def elements_def split: val.splits option.splits cell.splits)

lemma wrap_array_ref_eq:
  "wrap_array_ref message h =
     (if \<not> is_array h (read_field h message ''content'')
      then write_field message ''content'' (VRef (length h))
             (h @ [Arr [read_field h message ''content'']])
      else h)"
  by (simp add: wrap_array_ref_def whatis_ref_array)

lemma wrap_string_ref_props:
  assumes "is_obj h m"
  shows "length h \<le> length (wrap_string_ref m h)"
    and "is_obj (wrap_string_ref m h) m"
    and "\<And>b. b < length h \<Longrightarrow> b \<noteq> m \<Longrightarrow> wrap_string_ref m h ! b = h ! b"
    and "\<And>k. k \<noteq> ''content'' \<Longrightarrow> read_field (wrap_string_ref m h) m k = read_field h m k"
    and "read_field (wrap_string_ref m h) m ''content'' = read_field h m ''content''
         \<or> (\<not> is_array h (read_field h m ''content'')
            \<and> (\<exists>r. read_field (wrap_string_ref m h) m ''content'' = VRef r \<and> length h \<le> r))"
    and "\<And>x xs. elements h x = Some xs \<Longrightarrow> elements (wrap_string_ref m h) x = Some xs"
proof -
  have m: "m < length h" using assms by (rule is_obj_less)
  show "length h \<le> length (wrap_string_ref m h)"
    by (simp add: wrap_string_ref_def length_write_field split: val.splits)
  show "is_obj (wrap_string_ref m h) m"
    using assms by (simp add: wrap_string_ref_def is_obj_write_field is_obj_append split: val.splits)
  show "\<And>b. b < length h \<Longrightarrow> b \<noteq> m \<Longrightarrow> wrap_string_ref m h ! b = h ! b"
    by (simp add: wrap_string_ref_def nth_write_field nth_append split: val.splits)
  show "\<And>k. k \<noteq> ''content'' \<Longrightarrow> read_field (wrap_string_ref m h) m k = read_field h m k"
    using m by (simp add: wrap_string_ref_def read_field_write_field read_field_append split: val.splits)
  show "read_field (wrap_string_ref m h) m ''content'' = read_field h m ''content''
         \<or> (\<not> is_array h (read_field h m ''content'')
            \<and> (\<exists>r. read_field (wrap_string_ref m h) m ''content'' = VRef r \<and> length h \<le> r))"
    using assms
    by (auto simp: wrap_string_ref_def read_field_write_field is_obj_append is_array_def elements_def
        split: val.splits)
  show "\<And>x xs. elements h x = Some xs \<Longrightarrow> elements (wrap_string_ref m h) x = Some xs"
    by (simp add: wrap_string_ref_def elements_write_field elements_append_old split: val.splits)
qed

lemma wrap_array_ref_props:
  assumes "is_obj h m"
  shows "length h \<le> length (wrap_array_ref m h)"
    and "is_obj (wrap_array_ref m h) m"
    and "\<And>b. b < length h \<Longrightarrow> b \<noteq> m \<Longrightarrow> wrap_array_ref m h ! b = h ! b"
    and "\<And>k. k \<noteq> ''content'' \<Longrightarrow> read_field (wrap_array_ref m h) m k = read_field h m k"
    and "read_field (wrap_array_ref m h) m ''content'' = read_field h m ''content''
         \<or> (\<not> is_array h (read_field h m ''content'')
            \<and> (\<exists>r. read_field (wrap_array_ref m h) m ''content'' = VRef r \<and> length h \<le> r))"
    and "\<And>x xs. elements h x = Some xs \<Longrightarrow> elements (wrap_array_ref m h) x = Some xs"
    and "is_array (wrap_array_ref m h) (read_field (wrap_array_ref m h) m ''content'')"
proof -
  have m: "m < length h" using assms by (rule is_obj_less)
  show "length h \<le> length (wrap_array_ref m h)"
    by (simp add: wrap_array_ref_eq length_write_field)
  show "is_obj (wrap_array_ref m h) m"
    using assms by (simp add: wrap_array_ref_eq is_obj_write_field is_obj_append)
  show "\<And>b. b < length h \<Longrightarrow> b \<noteq> m \<Longrightarrow> wrap_array_ref m h ! b = h ! b"
    by (simp add: wrap_array_ref_eq nth_write_field nth_append)
  show "\<And>k. k \<noteq> ''content'' \<Longrightarrow> read_field (wrap_array_ref m h) m k = read_field h m k"
    using m by (simp add: wrap_array_ref_eq read_field_write_field read_field_append)
  show "read_field (wrap_array_ref m h) m ''content'' = read_field h m ''content''
         \<or> (\<not> is_array h (read_field h m ''content'')
            \<and> (\<exists>r. read_field (wrap_array_ref m h) m ''content'' = VRef r \<and> length h \<le> r))"
    using assms
    by (auto simp: wrap_array_ref_eq read_field_write_field is_obj_append)
  show "\<And>x xs. elements h x = Some xs \<Longrightarrow> elements (wrap_array_ref m h) x = Some xs"
    by (simp add: wrap_array_ref_eq elements_write_field elements_append_old)
  show "is_array (wrap_array_ref m h) (read_field (wrap_array_ref m h) m ''content'')"
  proof (cases "is_array h (read_field h m ''content'')")
    case True
    then show ?thesis by (simp add: wrap_array_ref_eq)
  next
    case False
    have "elements (h @ [Arr [read_field h m ''content'']]) (VRef (length h))
        = Some [read_field h m ''content'']"
      by (simp add: elements_def cell_at_append)
    with False assms show ?thesis
      by (simp add: wrap_array_ref_eq read_field_write_field is_obj_append is_array_def
          elements_write_field)
  qed
qed

lemma normalize_ref_props:
  assumes "is_obj h m"
  shows "length h \<le> length (normalize_ref m h)"
    and "\<And>b. b < length h \<Longrightarrow> b \<noteq> m \<Longrightarrow> normalize_ref m h ! b = h ! b"
    and "obj_rel h (normalize_ref m h) m"
    and "val_truthy (read_field (normalize_ref m h) m ''role'')"
    and "is_array (normalize_ref m h) (read_field (normalize_ref m h) m ''content'')"
    and "\<And>x xs. elements h x = Some xs \<Longrightarrow> elements (normalize_ref m h) x = Some xs"
proof -
  let ?h1 = "wrap_string_ref m h"
  let ?h2 = "wrap_array_ref m ?h1"
  let ?h3 = "default_role_ref m ?h2"
  have o1: "is_obj ?h1 m" using assms by (rule wrap_string_ref_props)
  have o2: "is_obj ?h2 m" using o1 by (rule wrap_array_ref_props)
  have l1: "length h \<le> length ?h1" using assms by (rule wrap_string_ref_props)
  have l2: "length ?h1 \<le> length ?h2" using o1 by (rule wrap_array_ref_props)
  have l3: "length ?h3 = length ?h2" by (simp add: default_role_ref_def length_write_field)
  have h3: "normalize_ref m h = ?h3" by (simp add: normalize_ref_def)
  show "length h \<le> length (normalize_ref m h)" using l1 l2 l3 by (simp add: h3)
  show "\<And>b. b < length h \<Longrightarrow> b \<noteq> m \<Longrightarrow> normalize_ref m h ! b = h ! b"
  proof -
    fix b assume b: "b < length h" "b \<noteq> m"
    have "?h3 ! b = ?h2 ! b" using b by (simp add: default_role_ref_def nth_write_field)
    also have "\<dots> = ?h1 ! b" using b l1 wrap_array_ref_props(3) [OF o1, of b] by simp
    also have "\<dots> = h ! b" using b wrap_string_ref_props(3) [OF assms, of b] by simp
    finally show "normalize_ref m h ! b = h ! b" by (simp add: h3)
  qed
  have el: "\<And>x xs. elements h x = Some xs \<Longrightarrow> elements ?h3 x = Some xs"
  proof -
    fix x xs assume "elements h x = Some xs"
    then have "elements ?h1 x = Some xs" by (rule wrap_string_ref_props(6) [OF assms])
    then have "elements ?h2 x = Some xs" by (rule wrap_array_ref_props(6) [OF o1])
    then show "elements ?h3 x = Some xs" by (simp add: default_role_ref_def elements_write_field)
  qed
  then show "\<And>x xs. elements h x = Some xs \<Longrightarrow> elements (normalize_ref m h) x = Some xs"
    by (simp add: h3)
  have arr: "is_array ?h3 (read_field ?h3 m ''content'')"
    using wrap_array_ref_props(7) [OF o1]
    by (simp add: default_role_ref_def read_field_write_field is_array_write_field)
  then show "is_array (normalize_ref m h) (read_field (normalize_ref m h) m ''content'')"
    by (simp add: h3)
  have role3: "read_field ?h3 m ''role'' = effective_role_ref (read_field ?h2 m ''role'')"
    using o2 by (simp add: default_role_ref_def read_field_write_field effective_role_ref_def)
  have role2: "read_field ?h2 m ''role'' = read_field h m ''role''"
    using wrap_array_ref_props(4) [OF o1, of "''role''"] wrap_string_ref_props(4) [OF assms, of "''role''"]
    by simp
  show "val_truthy (read_field (normalize_ref m h) m ''role'')"
    by (simp add: h3 role3 effective_role_ref_def)
  have other: "\<forall>k. k \<noteq> ''role'' \<longrightarrow> k \<noteq> ''content'' \<longrightarrow> read_field ?h3 m k = read_field h m k"
  proof (intro allI impI)
    fix k assume k: "k \<noteq> ''role''" "k \<noteq> ''content''"
    have "read_field ?h3 m k = read_field ?h2 m k"
      using k by (simp add: default_role_ref_def read_field_write_field)
    also have "\<dots> = read_field ?h1 m k" using k by (simp add: wrap_array_ref_props(4) [OF o1])
    also have "\<dots> = read_field h m k" using k by (simp add: wrap_string_ref_props(4) [OF assms])
    finally show "read_field ?h3 m k = read_field h m k" .
  qed
  have c3: "read_field ?h3 m ''content'' = read_field ?h2 m ''content''"
    by (simp add: default_role_ref_def read_field_write_field)
  have c1: "content_kept h (read_field h m ''content'') (read_field ?h1 m ''content'')"
    using wrap_string_ref_props(5) [OF assms] by (simp add: content_kept_def)
  have c2: "content_kept ?h1 (read_field ?h1 m ''content'') (read_field ?h2 m ''content'')"
    using wrap_array_ref_props(5) [OF o1] by (simp add: content_kept_def)
  have keep_arr: "\<And>x. is_array h x \<Longrightarrow> is_array ?h1 x"
    using wrap_string_ref_props(6) [OF assms] by (auto simp: is_array_def)
  have c: "content_kept h (read_field h m ''content'') (read_field ?h3 m ''content'')"
    unfolding c3 using c1 c2 keep_arr l1
    by (auto simp: content_kept_def)
  have "is_obj ?h3 m" using o2 by (simp add: default_role_ref_def is_obj_write_field)
  with other c role3 role2 show "obj_rel h (normalize_ref m h) m"
    by (simp add: obj_rel_def h3 role_kept_def effective_role_ref_def)
qed

lemma array_update_props:
  assumes "elements h (VRef r) = Some xs"
  shows "length (h[r := Arr (xs @ ys)]) = length h"
    and "\<And>b. is_obj (h[r := Arr (xs @ ys)]) b = is_obj h b"
    and "\<And>b k. read_field (h[r := Arr (xs @ ys)]) b k = read_field h b k"
    and "\<And>b. b \<noteq> r \<Longrightarrow> h[r := Arr (xs @ ys)] ! b = h ! b"
    and "h[r := Arr (xs @ ys)] ! r = Arr (xs @ ys)"
    and "\<And>x. is_array (h[r := Arr (xs @ ys)]) x = is_array h x"
proof -
  from assms have r: "r < length h" "h ! r = Arr xs" by (auto dest: elements_less)
  show "length (h[r := Arr (xs @ ys)]) = length h" by simp
  show "\<And>b. is_obj (h[r := Arr (xs @ ys)]) b = is_obj h b"
    using r by (auto simp: is_obj_def cell_at_def nth_list_update)
  show "\<And>b k. read_field (h[r := Arr (xs @ ys)]) b k = read_field h b k"
    using r by (auto simp: read_field_def cell_at_def nth_list_update)
  show "\<And>b. b \<noteq> r \<Longrightarrow> h[r := Arr (xs @ ys)] ! b = h ! b" by simp
  show "h[r := Arr (xs @ ys)] ! r = Arr (xs @ ys)" using r by simp
  show "\<And>x. is_array (h[r := Arr (xs @ ys)]) x = is_array h x"
    using r by (auto simp: is_array_def elements_def cell_at_def nth_list_update
        split: val.splits cell.splits)
qed

lemma obj_not_arr: "is_obj h a \<Longrightarrow> h ! a = Arr xs \<Longrightarrow> False"
  by (auto simp: is_obj_def cell_at_def split: if_splits)

lemma obj_rel_same_cells:
  assumes "obj_rel h h1 m" and "is_obj h2 m = is_obj h1 m"
    and "\<forall>k. read_field h2 m k = read_field h1 m k"
  shows "obj_rel h h2 m"
  using assms by (simp add: obj_rel_def)

lemma adapt_message_ref_moves:
  assumes obj: "is_obj (store s) m" and rdy: "ready s"
  shows "\<exists>s'. adapt_message_ref m s = Inr s' \<and> moves m s s' \<and> via m s s'"
proof -
  let ?h = "store s"
  let ?h1 = "normalize_ref m ?h"
  note n = normalize_ref_props [OF obj]
  from obj obtain fs where cell: "cell_at ?h m = Some (Obj fs)"
    by (auto simp: is_obj_def split: option.splits cell.splits)
  obtain ys where ys: "elements ?h1 (read_field ?h1 m ''content'') = Some ys"
    using n(5) by (auto simp: is_array_def)
  have arrays_same: "\<And>a xs. a < length ?h \<Longrightarrow> ?h ! a = Arr xs \<Longrightarrow> ?h1 ! a = Arr xs"
  proof -
    fix a xs assume a: "a < length ?h" "?h ! a = Arr xs"
    with obj have "a \<noteq> m" by (auto dest: obj_not_arr)
    with a n(2) [of a] show "?h1 ! a = Arr xs" by simp
  qed
  have objs_same: "\<And>b. is_obj ?h b \<Longrightarrow> b \<noteq> m \<Longrightarrow> ?h1 ! b = ?h ! b"
    using n(2) by (simp add: is_obj_less)
  show ?thesis
  proof (cases "read_field ?h1 m ''role'' = VStr ''user'' \<and> previous_was_user_ref s")
    case True
    let ?l = "last (adapted_messages_ref s)"
    from True rdy have ne: "adapted_messages_ref s \<noteq> []" by (simp add: ready_def)
    then have l_in: "?l \<in> set (adapted_messages_ref s)" by simp
    with rdy have l_obj: "is_obj ?h ?l" and l_arr: "is_array ?h (read_field ?h ?l ''content'')"
      by (auto simp: ready_def)
    from l_arr obtain xs where xs: "elements ?h (read_field ?h ?l ''content'') = Some xs"
      by (auto simp: is_array_def)
    then obtain r where r: "read_field ?h ?l ''content'' = VRef r"
      by (auto dest: elements_ref)
    have l_same: "read_field ?h1 ?l ''content'' = VRef r"
    proof (cases "?l = m")
      case True
      from n(3) have "content_kept ?h (read_field ?h m ''content'') (read_field ?h1 m ''content'')"
        by (simp add: obj_rel_def)
      with l_arr True r show ?thesis by (auto simp: content_kept_def)
    next
      case False
      with objs_same [OF l_obj] l_obj have "?h1 ! ?l = ?h ! ?l" by simp
      moreover have "?l < length ?h" using l_obj by (rule is_obj_less)
      moreover have "?l < length ?h1" using n(1) calculation(2) by simp
      ultimately have "read_field ?h1 ?l ''content'' = read_field ?h ?l ''content''"
        by (simp add: read_field_def cell_at_def)
      with r show ?thesis by simp
    qed
    have xs1: "elements ?h1 (VRef r) = Some xs" using xs r n(6) by simp
    note u = array_update_props [OF xs1, where ys = ys]
    let ?h2 = "?h1[r := Arr (xs @ ys)]"
    let ?s' = "s\<lparr>store := ?h2\<rparr>"
    have run: "adapt_message_ref m s = Inr ?s'"
      using True ne cell l_same xs1 ys by (simp add: adapt_message_ref_def Let_def)
    have r_old: "r < length ?h" "?h ! r = Arr xs" using xs r by (auto dest: elements_less)
    have m1: "length ?h \<le> length ?h2" using n(1) by simp
    have m2: "\<forall>b. is_obj ?h b \<longrightarrow> b \<noteq> m \<longrightarrow> ?h2 ! b = ?h ! b"
    proof (intro allI impI)
      fix b assume b: "is_obj ?h b" "b \<noteq> m"
      with r_old have "b \<noteq> r" by (auto dest: obj_not_arr)
      then show "?h2 ! b = ?h ! b" using objs_same [OF b] by simp
    qed
    have m3: "obj_rel ?h ?h2 m"
      using n(3) u(2) u(3) by (intro obj_rel_same_cells [of ?h ?h1 m ?h2]) simp_all
    have m4: "val_truthy (read_field ?h2 m ''role'')" using n(4) u(3) by simp
    have m5: "is_array ?h2 (read_field ?h2 m ''content'')" using n(5) u(3) u(6) by simp
    have m6: "\<forall>a zs. a < length ?h \<longrightarrow> ?h ! a = Arr zs \<longrightarrow>
           (\<exists>extra. ?h2 ! a = Arr (zs @ extra)
              \<and> (extra \<noteq> [] \<longrightarrow>
                    (\<exists>l \<in> set (adapted_messages_ref s). read_field ?h l ''content'' = VRef a)))"
    proof (intro allI impI)
      fix a zs assume a: "a < length ?h" "?h ! a = Arr zs"
      show "\<exists>extra. ?h2 ! a = Arr (zs @ extra)
              \<and> (extra \<noteq> [] \<longrightarrow>
                    (\<exists>l \<in> set (adapted_messages_ref s). read_field ?h l ''content'' = VRef a))"
      proof (cases "a = r")
        case True
        then have "zs = xs" using a r_old by simp
        then have "?h2 ! a = Arr (zs @ ys)" using True u(5) by simp
        moreover have "\<exists>l \<in> set (adapted_messages_ref s). read_field ?h l ''content'' = VRef a"
          using l_in r True by blast
        ultimately show ?thesis by blast
      next
        case False
        then have "?h2 ! a = Arr (zs @ [])" using arrays_same [OF a] by simp
        then show ?thesis by blast
      qed
    qed
    have "moves m s ?s'"
      unfolding moves_def using m1 m2 m3 m4 m5 m6 ne by auto
    moreover have "via m s ?s'"
      unfolding via_def using r_old(1) xs1 by auto
    ultimately show ?thesis using run by blast
  next
    case False
    have m6: "\<forall>a zs. a < length ?h \<longrightarrow> ?h ! a = Arr zs \<longrightarrow>
           (\<exists>extra. ?h1 ! a = Arr (zs @ extra)
              \<and> (extra \<noteq> [] \<longrightarrow>
                    (\<exists>l \<in> set (adapted_messages_ref s). read_field ?h l ''content'' = VRef a)))"
    proof (intro allI impI)
      fix a zs assume a: "a < length ?h" "?h ! a = Arr zs"
      then have "?h1 ! a = Arr (zs @ [])" using arrays_same [OF a] by simp
      then show "\<exists>extra. ?h1 ! a = Arr (zs @ extra)
              \<and> (extra \<noteq> [] \<longrightarrow>
                    (\<exists>l \<in> set (adapted_messages_ref s). read_field ?h l ''content'' = VRef a))"
        by blast
    qed
    have m2: "\<forall>b. is_obj ?h b \<longrightarrow> b \<noteq> m \<longrightarrow> ?h1 ! b = ?h ! b"
      using objs_same by simp
    show ?thesis
    proof (cases "read_field ?h1 m ''role'' = VStr ''system''")
      case True
      let ?s' = "s\<lparr>store := ?h1, system_prompts_ref := system_prompts_ref s @ ys\<rparr>"
      have run: "adapt_message_ref m s = Inr ?s'"
        using False True cell ys by (auto simp: adapt_message_ref_def Let_def)
      have "moves m s ?s'"
        unfolding moves_def using n(1) m2 n(3) n(4) n(5) m6 rdy by (auto simp: ready_def)
      moreover have "via m s ?s'" by (simp add: via_def)
      ultimately show ?thesis using run by blast
    next
      case sys: False
      let ?s' = "s\<lparr>store := ?h1,
                   adapted_messages_ref := adapted_messages_ref s @ [m],
                   previous_was_user_ref := (if read_field ?h1 m ''role'' = VStr ''user'' then True
                                 else previous_was_user_ref s)\<rparr>"
      have run: "adapt_message_ref m s = Inr ?s'"
        using False sys cell by (auto simp: adapt_message_ref_def Let_def)
      have "moves m s ?s'"
        unfolding moves_def using n(1) m2 n(3) n(4) n(5) m6 by auto
      moreover have "via m s ?s'" by (simp add: via_def)
      ultimately show ?thesis using run by blast
    qed
  qed
qed

lemma same_cell:
  assumes "a < length h" and "a < length h'" and "h' ! a = h ! a"
  shows "read_field h' a k = read_field h a k" and "is_obj h' a = is_obj h a"
  using assms by (simp_all add: read_field_def is_obj_def cell_at_def)

lemma is_array_persists:
  assumes "\<forall>a xs. a < length h \<longrightarrow> h ! a = Arr xs \<longrightarrow> (\<exists>extra. h' ! a = Arr (xs @ extra))"
    and "length h \<le> length h'" and "is_array h x"
  shows "is_array h' x"
proof -
  from assms(3) obtain xs where "elements h x = Some xs" by (auto simp: is_array_def)
  then obtain r where x: "x = VRef r" and r: "r < length h" "h ! r = Arr xs"
    by (auto dest: elements_ref elements_less)
  with assms(1) obtain extra where "h' ! r = Arr (xs @ extra)" by blast
  with r assms(2) show ?thesis by (simp add: x is_array_def elements_def cell_at_def)
qed

lemma obj_rel_trans:
  assumes "obj_rel h0 h1 a" and "obj_rel h1 h2 a" and "length h0 \<le> length h1"
    and keep: "\<And>x. is_array h0 x \<Longrightarrow> is_array h1 x"
  shows "obj_rel h0 h2 a"
proof -
  let ?c0 = "read_field h0 a ''content''" and ?c1 = "read_field h1 a ''content''"
    and ?c2 = "read_field h2 a ''content''"
  from assms(1) have r01: "role_kept (read_field h0 a ''role'') (read_field h1 a ''role'')"
    by (simp add: obj_rel_def)
  from assms(2) have r12: "role_kept (read_field h1 a ''role'') (read_field h2 a ''role'')"
    by (simp add: obj_rel_def)
  have role: "role_kept (read_field h0 a ''role'') (read_field h2 a ''role'')"
  proof (cases "read_field h1 a ''role'' = read_field h0 a ''role''")
    case True
    with r12 show ?thesis by simp
  next
    case False
    with r01 have "\<not> val_truthy (read_field h0 a ''role'')"
      and "read_field h1 a ''role'' = VStr ''user''" by (simp_all add: role_kept_def)
    with r12 show ?thesis by (simp add: role_kept_def)
  qed
  from assms(1) have k01: "content_kept h0 ?c0 ?c1" by (simp add: obj_rel_def)
  from assms(2) have k12: "content_kept h1 ?c1 ?c2" by (simp add: obj_rel_def)
  have content: "content_kept h0 ?c0 ?c2"
  proof (cases "?c2 = ?c1")
    case True
    with k01 show ?thesis by simp
  next
    case False
    with k12 obtain r where fresh: "\<not> is_array h1 ?c1" "?c2 = VRef r" "length h1 \<le> r"
      by (auto simp: content_kept_def)
    show ?thesis
    proof (cases "?c1 = ?c0")
      case True
      with fresh(1) keep [of ?c0] have "\<not> is_array h0 ?c0" by auto
      with fresh(2,3) assms(3) show ?thesis by (simp add: content_kept_def)
    next
      case False
      with k01 have "\<not> is_array h0 ?c0" by (simp add: content_kept_def)
      with fresh(2,3) assms(3) show ?thesis by (simp add: content_kept_def)
    qed
  qed
  from assms(1) have o01: "\<forall>k. k \<noteq> ''role'' \<longrightarrow> k \<noteq> ''content'' \<longrightarrow>
      read_field h1 a k = read_field h0 a k" by (simp add: obj_rel_def)
  from assms(2) have o12: "\<forall>k. k \<noteq> ''role'' \<longrightarrow> k \<noteq> ''content'' \<longrightarrow>
      read_field h2 a k = read_field h1 a k" by (simp add: obj_rel_def)
  have other: "\<forall>k. k \<noteq> ''role'' \<longrightarrow> k \<noteq> ''content'' \<longrightarrow> read_field h2 a k = read_field h0 a k"
  proof (intro allI impI)
    fix k :: string assume k: "k \<noteq> ''role''" "k \<noteq> ''content''"
    with o12 have "read_field h2 a k = read_field h1 a k" by blast
    also from k o01 have "\<dots> = read_field h0 a k" by blast
    finally show "read_field h2 a k = read_field h0 a k" .
  qed
  from assms(2) have "is_obj h2 a" by (simp add: obj_rel_def)
  with other role content show ?thesis by (simp add: obj_rel_def)
qed

lemma frame_inv_ready:
  assumes "frame_inv h0 P s" and "\<forall>a \<in> P. is_obj h0 a"
  shows "ready s"
  using assms by (auto simp: frame_inv_def ready_def obj_rel_def)

lemma frame_inv_obj:
  assumes "frame_inv h0 P s" and "is_obj h0 m"
  shows "is_obj (store s) m"
  using assms by (auto simp: frame_inv_def obj_rel_def)

lemma frame_inv_moves:
  assumes inv: "frame_inv h0 P s" and P: "\<forall>a \<in> P. is_obj h0 a" and m: "is_obj h0 m"
    and mv: "moves m s s'"
  shows "frame_inv h0 (insert m P) s'"
proof -
  let ?h = "store s" and ?h' = "store s'"
  from inv have len0: "length h0 \<le> length ?h" by (simp add: frame_inv_def)
  from mv have len: "length ?h \<le> length ?h'" by (simp add: moves_def)
  from inv have arr0: "\<forall>a xs. a < length h0 \<longrightarrow> h0 ! a = Arr xs \<longrightarrow>
           (\<exists>extra. ?h ! a = Arr (xs @ extra)
              \<and> (extra \<noteq> [] \<longrightarrow> (\<exists>m \<in> P. read_field h0 m ''content'' = VRef a)))"
    by (simp add: frame_inv_def)
  from mv have arr: "\<forall>a xs. a < length ?h \<longrightarrow> ?h ! a = Arr xs \<longrightarrow>
           (\<exists>extra. ?h' ! a = Arr (xs @ extra)
              \<and> (extra \<noteq> [] \<longrightarrow>
                    (\<exists>l \<in> set (adapted_messages_ref s). read_field ?h l ''content'' = VRef a)))"
    by (simp add: moves_def)
  from inv have rel0: "\<forall>a. is_obj h0 a \<longrightarrow> obj_rel h0 ?h a" by (simp add: frame_inv_def)
  from inv have sub: "set (adapted_messages_ref s) \<subseteq> P" by (simp add: frame_inv_def)
  from mv have others: "\<forall>b. is_obj ?h b \<longrightarrow> b \<noteq> m \<longrightarrow> ?h' ! b = ?h ! b" by (simp add: moves_def)
  have keep0: "\<And>x. is_array h0 x \<Longrightarrow> is_array ?h x"
    using arr0 len0 by (intro is_array_persists [of h0 ?h]) blast+
  have keep: "\<And>x. is_array ?h x \<Longrightarrow> is_array ?h' x"
    using arr len by (intro is_array_persists [of ?h ?h']) blast+
  have other_cells: "\<And>a. is_obj h0 a \<Longrightarrow> a \<noteq> m \<Longrightarrow>
      ?h' ! a = ?h ! a \<and> a < length ?h \<and> a < length ?h'"
  proof -
    fix a assume a: "is_obj h0 a" "a \<noteq> m"
    then have "is_obj ?h a" using inv by (rule_tac frame_inv_obj)
    then show "?h' ! a = ?h ! a \<and> a < length ?h \<and> a < length ?h'"
      using others a(2) len by (auto dest: is_obj_less)
  qed
  have c_len: "length h0 \<le> length ?h'" using len0 len by simp
  have c_arr: "\<forall>a xs. a < length h0 \<longrightarrow> h0 ! a = Arr xs \<longrightarrow>
           (\<exists>extra. ?h' ! a = Arr (xs @ extra)
              \<and> (extra \<noteq> [] \<longrightarrow> (\<exists>m \<in> insert m P. read_field h0 m ''content'' = VRef a)))"
  proof (intro allI impI)
    fix a xs assume a: "a < length h0" "h0 ! a = Arr xs"
    with arr0 obtain e where e: "?h ! a = Arr (xs @ e)"
      and e_src: "e \<noteq> [] \<longrightarrow> (\<exists>m \<in> P. read_field h0 m ''content'' = VRef a)" by blast
    from a len0 have "a < length ?h" by simp
    with arr e obtain e' where e': "?h' ! a = Arr ((xs @ e) @ e')"
      and e'_src: "e' \<noteq> [] \<longrightarrow>
          (\<exists>l \<in> set (adapted_messages_ref s). read_field ?h l ''content'' = VRef a)" by blast
    have "e' \<noteq> [] \<longrightarrow> (\<exists>m \<in> P. read_field h0 m ''content'' = VRef a)"
    proof
      assume "e' \<noteq> []"
      with e'_src obtain l where l: "l \<in> set (adapted_messages_ref s)"
        and lc: "read_field ?h l ''content'' = VRef a" by blast
      from l sub have lP: "l \<in> P" by blast
      with P rel0 have "obj_rel h0 ?h l" by blast
      then have "content_kept h0 (read_field h0 l ''content'') (VRef a)"
        using lc by (simp add: obj_rel_def)
      with a(1) have "read_field h0 l ''content'' = VRef a"
        by (auto simp: content_kept_def)
      with lP show "\<exists>m \<in> P. read_field h0 m ''content'' = VRef a" by blast
    qed
    with e_src have "e @ e' \<noteq> [] \<longrightarrow> (\<exists>m \<in> insert m P. read_field h0 m ''content'' = VRef a)"
      by auto
    with e' show "\<exists>extra. ?h' ! a = Arr (xs @ extra)
              \<and> (extra \<noteq> [] \<longrightarrow> (\<exists>m \<in> insert m P. read_field h0 m ''content'' = VRef a))"
      by (intro exI [of _ "e @ e'"]) simp
  qed
  have c_out: "\<forall>a. is_obj h0 a \<longrightarrow> a \<notin> insert m P \<longrightarrow> ?h' ! a = h0 ! a"
  proof (intro allI impI)
    fix a assume a: "is_obj h0 a" "a \<notin> insert m P"
    then have "?h' ! a = ?h ! a" using other_cells [of a] by simp
    moreover have "?h ! a = h0 ! a" using inv a by (simp add: frame_inv_def)
    ultimately show "?h' ! a = h0 ! a" by simp
  qed
  have c_rel: "\<forall>a. is_obj h0 a \<longrightarrow> obj_rel h0 ?h' a"
  proof (intro allI impI)
    fix a assume a: "is_obj h0 a"
    with rel0 have r0: "obj_rel h0 ?h a" by blast
    show "obj_rel h0 ?h' a"
    proof (cases "a = m")
      case True
      from mv have "obj_rel ?h ?h' m" by (simp add: moves_def)
      with r0 True show ?thesis
        using len0 keep0 by (auto intro: obj_rel_trans [of h0 ?h m ?h'])
    next
      case False
      from other_cells [OF a False]
      have "\<forall>k. read_field ?h' a k = read_field ?h a k" and "is_obj ?h' a = is_obj ?h a"
        by (simp_all add: same_cell)
      with r0 show ?thesis by (intro obj_rel_same_cells [of h0 ?h a ?h']) simp_all
    qed
  qed
  have c_done: "\<forall>a \<in> insert m P. val_truthy (read_field ?h' a ''role'')
                  \<and> is_array ?h' (read_field ?h' a ''content'')"
  proof
    fix a assume a: "a \<in> insert m P"
    show "val_truthy (read_field ?h' a ''role'') \<and> is_array ?h' (read_field ?h' a ''content'')"
    proof (cases "a = m")
      case True
      with mv show ?thesis by (simp add: moves_def)
    next
      case False
      with a have aP: "a \<in> P" by simp
      with P have "is_obj h0 a" by blast
      from other_cells [OF this False]
      have same: "\<forall>k. read_field ?h' a k = read_field ?h a k" by (simp add: same_cell)
      from inv aP have "val_truthy (read_field ?h a ''role'')"
        and "is_array ?h (read_field ?h a ''content'')" by (simp_all add: frame_inv_def)
      with same keep show ?thesis by simp
    qed
  qed
  have c_sub: "set (adapted_messages_ref s') \<subseteq> insert m P"
    using mv sub by (auto simp: moves_def)
  have c_flag: "previous_was_user_ref s' \<longrightarrow> adapted_messages_ref s' \<noteq> []"
    using mv by (simp add: moves_def)
  show ?thesis
    unfolding frame_inv_def
    by (intro conjI c_len c_arr c_out c_rel c_done c_sub c_flag)
qed

lemma frame_inv_initial:
  "frame_inv h {} \<lparr>store = h, adapted_messages_ref = [], system_prompts_ref = [], previous_was_user_ref = False\<rparr>"
  by (auto simp: frame_inv_def obj_rel_def role_kept_def content_kept_def)

lemma normalize_ref_wraps:
  assumes obj: "is_obj h m" and na: "\<not> is_array h (read_field h m ''content'')"
  shows "holds_wrapped (length h) (read_field h m ''content'') (normalize_ref m h)
           (read_field (normalize_ref m h) m ''content'')"
proof -
  have m: "m < length h" using obj by (rule is_obj_less)
  let ?c = "read_field h m ''content''"
  show ?thesis
  proof (cases "\<exists>t. ?c = VStr t")
    case True
    then obtain t where t: "?c = VStr t" by blast
    let ?part = "Obj [(''type'', VStr ''text''), (''text'', VStr t)]"
    let ?h1 = "write_field m ''content'' (VRef (length h)) (h @ [?part])"
    have h1: "wrap_string_ref m h = ?h1" using t by (simp add: wrap_string_ref_def)
    have len1: "length ?h1 = Suc (length h)" by (simp add: length_write_field)
    have obj1: "is_obj ?h1 m" using obj by (simp add: is_obj_write_field is_obj_append)
    have c1: "read_field ?h1 m ''content'' = VRef (length h)"
      using obj by (simp add: read_field_write_field is_obj_append)
    have p1: "?h1 ! length h = ?part" using m by (simp add: nth_write_field)
    have not_arr1: "\<not> is_array ?h1 (VRef (length h))"
      using p1 len1 by (simp add: is_array_def elements_def cell_at_def)
    let ?h2 = "write_field m ''content'' (VRef (Suc (length h))) (?h1 @ [Arr [VRef (length h)]])"
    have h2: "wrap_array_ref m ?h1 = ?h2"
      using not_arr1 c1 len1 by (simp add: wrap_array_ref_eq)
    have len2: "length ?h2 = Suc (Suc (length h))" by (simp add: length_write_field len1)
    have c2: "read_field ?h2 m ''content'' = VRef (Suc (length h))"
      using obj1 by (simp add: read_field_write_field is_obj_append)
    have r2: "?h2 ! Suc (length h) = Arr [VRef (length h)]"
      using m len1 by (simp add: nth_write_field nth_append)
    have p2: "?h2 ! length h = ?part"
      using m p1 len1 by (simp add: nth_write_field nth_append)
    let ?h3 = "default_role_ref m ?h2"
    have h3: "normalize_ref m h = ?h3" by (simp add: normalize_ref_def h1 h2)
    have len3: "length ?h3 = Suc (Suc (length h))"
      by (simp add: default_role_ref_def length_write_field len2)
    have c3: "read_field ?h3 m ''content'' = VRef (Suc (length h))"
      using c2 by (simp add: default_role_ref_def read_field_write_field)
    have r3: "?h3 ! Suc (length h) = Arr [VRef (length h)]"
      using m r2 by (simp add: default_role_ref_def nth_write_field)
    have p3: "?h3 ! length h = ?part"
      using m p2 by (simp add: default_role_ref_def nth_write_field)
    show ?thesis
      unfolding holds_wrapped_def wrapped_part_def h3 c3 t using len3 r3 p3 by auto
  next
    case False
    then have h1: "wrap_string_ref m h = h" by (simp add: wrap_string_ref_def split: val.splits)
    let ?h2 = "write_field m ''content'' (VRef (length h)) (h @ [Arr [?c]])"
    have h2: "wrap_array_ref m h = ?h2" using na by (simp add: wrap_array_ref_eq)
    have len2: "length ?h2 = Suc (length h)" by (simp add: length_write_field)
    have c2: "read_field ?h2 m ''content'' = VRef (length h)"
      using obj by (simp add: read_field_write_field is_obj_append)
    have r2: "?h2 ! length h = Arr [?c]" using m by (simp add: nth_write_field)
    let ?h3 = "default_role_ref m ?h2"
    have h3: "normalize_ref m h = ?h3" by (simp add: normalize_ref_def h1 h2)
    have len3: "length ?h3 = Suc (length h)"
      by (simp add: default_role_ref_def length_write_field len2)
    have c3: "read_field ?h3 m ''content'' = VRef (length h)"
      using c2 by (simp add: default_role_ref_def read_field_write_field)
    have r3: "?h3 ! length h = Arr [?c]"
      using m r2 by (simp add: default_role_ref_def nth_write_field)
    show ?thesis
      unfolding holds_wrapped_def wrapped_part_def h3 c3 using False len3 r3 by (auto split: val.splits)
  qed
qed

lemma holds_wrapped_update:
  assumes "holds_wrapped n c h c'" and "r < n" and "elements h (VRef r) = Some xs"
  shows "holds_wrapped n c (h[r := Arr (xs @ ys)]) c'"
proof -
  let ?h' = "h[r := Arr (xs @ ys)]"
  from assms(1) obtain q w zs where q: "c' = VRef q" "n \<le> q" "q < length h" "h ! q = Arr (w # zs)"
    and part: "case c of
              VStr t \<Rightarrow> (\<exists>p. w = VRef p \<and> n \<le> p \<and> p < length h
                            \<and> h ! p = Obj [(''type'', VStr ''text''), (''text'', VStr t)])
            | _ \<Rightarrow> w = c"
    by (auto simp: holds_wrapped_def wrapped_part_def)
  have q': "?h' ! q = Arr (w # zs)" using q(2,4) assms(2) by simp
  have part': "case c of
              VStr t \<Rightarrow> (\<exists>p. w = VRef p \<and> n \<le> p \<and> p < length ?h'
                            \<and> ?h' ! p = Obj [(''type'', VStr ''text''), (''text'', VStr t)])
            | _ \<Rightarrow> w = c"
  proof (cases "\<exists>t. c = VStr t")
    case True
    then obtain t where t: "c = VStr t" by blast
    with part obtain p where p: "w = VRef p" "n \<le> p" "p < length h"
      "h ! p = Obj [(''type'', VStr ''text''), (''text'', VStr t)]" by auto
    then have "?h' ! p = h ! p" using assms(2) by simp
    with p show ?thesis by (simp add: t)
  next
    case False
    with part show ?thesis by (auto split: val.splits)
  qed
  show ?thesis
    unfolding holds_wrapped_def wrapped_part_def
    using q(1,2,3) q' part' by (intro exI [of _ q] exI [of _ w] exI [of _ zs]) simp
qed

lemma holds_wrapped_mono: "holds_wrapped n c h c' \<Longrightarrow> k \<le> n \<Longrightarrow> holds_wrapped k c h c'"
proof (cases "\<exists>t. c = VStr t")
  case True
  then obtain t where t: "c = VStr t" by blast
  assume "holds_wrapped n c h c'" and "k \<le> n"
  then show ?thesis unfolding holds_wrapped_def wrapped_part_def t by fastforce
next
  case False
  assume "holds_wrapped n c h c'" and "k \<le> n"
  then show ?thesis using False unfolding holds_wrapped_def wrapped_part_def by (cases c) fastforce+
qed

lemma holds_wrapped_moves:
  assumes hw: "holds_wrapped n c (store s) c'" and mv: "moves m s s'" and m: "m < n"
  shows "holds_wrapped n c (store s') c'"
proof -
  let ?h = "store s" and ?h' = "store s'"
  from hw obtain r w ys where r: "c' = VRef r" "n \<le> r" "r < length ?h" "?h ! r = Arr (w # ys)"
    and part: "case c of
              VStr t \<Rightarrow> (\<exists>p. w = VRef p \<and> n \<le> p \<and> p < length ?h
                            \<and> ?h ! p = Obj [(''type'', VStr ''text''), (''text'', VStr t)])
            | _ \<Rightarrow> w = c"
    by (auto simp: holds_wrapped_def wrapped_part_def)
  from mv have len: "length ?h \<le> length ?h'" by (simp add: moves_def)
  from mv r(3,4) obtain extra where r': "?h' ! r = Arr ((w # ys) @ extra)"
    unfolding moves_def by blast
  have part': "case c of
              VStr t \<Rightarrow> (\<exists>p. w = VRef p \<and> n \<le> p \<and> p < length ?h'
                            \<and> ?h' ! p = Obj [(''type'', VStr ''text''), (''text'', VStr t)])
            | _ \<Rightarrow> w = c"
  proof (cases "\<exists>t. c = VStr t")
    case True
    then obtain t where t: "c = VStr t" by blast
    with part obtain p where p: "w = VRef p" "n \<le> p" "p < length ?h"
      "?h ! p = Obj [(''type'', VStr ''text''), (''text'', VStr t)]" by auto
    then have "is_obj ?h p" by (simp add: is_obj_def cell_at_def)
    moreover have "p \<noteq> m" using p(2) m by simp
    ultimately have "?h' ! p = ?h ! p" using mv by (simp add: moves_def)
    with p len show ?thesis by (simp add: t)
  next
    case False
    with part show ?thesis by (auto split: val.splits)
  qed
  show ?thesis
    unfolding holds_wrapped_def wrapped_part_def
    using r(1,2,3) len r' part' by (intro exI [of _ r] exI [of _ w] exI [of _ "ys @ extra"]) simp
qed

lemma wrapped_inv_step:
  assumes inv: "frame_inv h0 P s" and winv: "wrapped_inv h0 P s"
    and P: "\<forall>a \<in> P. is_obj h0 a" and m: "message_at h0 m"
    and mv: "moves m s s'" and v: "via m s s'"
  shows "wrapped_inv h0 (insert m P) s'"
  unfolding wrapped_inv_def
proof (intro ballI impI)
  fix a assume a: "a \<in> insert m P" and na: "\<not> is_array h0 (read_field h0 a ''content'')"
  let ?h = "store s" and ?h' = "store s'"
  let ?c0 = "read_field h0 a ''content''"
  from m have m_obj: "is_obj h0 m" by (simp add: message_at_def)
  then have m_less: "m < length h0" by (rule is_obj_less)
  from inv have len0: "length h0 \<le> length ?h" by (simp add: frame_inv_def)
  from mv have len: "length ?h \<le> length ?h'" by (simp add: moves_def)
  from mv have others: "\<forall>b. is_obj ?h b \<longrightarrow> b \<noteq> m \<longrightarrow> ?h' ! b = ?h ! b"
    by (simp add: moves_def)
  from mv have rel: "obj_rel ?h ?h' m" by (simp add: moves_def)
  from inv have outside: "\<forall>a. is_obj h0 a \<longrightarrow> a \<notin> P \<longrightarrow> ?h ! a = h0 ! a"
    by (simp add: frame_inv_def)
  from inv have inside: "\<forall>a \<in> P. val_truthy (read_field ?h a ''role'')
                  \<and> is_array ?h (read_field ?h a ''content'')"
    by (simp add: frame_inv_def)
  show "holds_wrapped (length h0) ?c0 ?h' (read_field ?h' a ''content'')"
  proof (cases "a \<in> P")
    case True
    from winv have "\<forall>a \<in> P. \<not> is_array h0 (read_field h0 a ''content'') \<longrightarrow>
        holds_wrapped (length h0) (read_field h0 a ''content'') ?h (read_field ?h a ''content'')"
      unfolding wrapped_inv_def .
    then have "\<not> is_array h0 ?c0 \<longrightarrow>
        holds_wrapped (length h0) ?c0 ?h (read_field ?h a ''content'')"
      using True by (rule bspec)
    then have hw: "holds_wrapped (length h0) ?c0 ?h (read_field ?h a ''content'')"
      using na by (rule mp)
    then have hw': "holds_wrapped (length h0) ?c0 ?h' (read_field ?h a ''content'')"
      using mv m_less by (rule holds_wrapped_moves)
    have eq: "read_field ?h' a ''content'' = read_field ?h a ''content''"
    proof (cases "a = m")
      case am: True
      from inside True have "val_truthy (read_field ?h a ''role'')
          \<and> is_array ?h (read_field ?h a ''content'')" by (rule bspec)
      then have arr: "is_array ?h (read_field ?h a ''content'')" by (rule conjunct2)
      from rel have "content_kept ?h (read_field ?h m ''content'') (read_field ?h' m ''content'')"
        by (simp add: obj_rel_def)
      then have "read_field ?h' m ''content'' = read_field ?h m ''content''
          \<or> \<not> is_array ?h (read_field ?h m ''content'')"
        unfolding content_kept_def by auto
      with arr show ?thesis unfolding am by simp
    next
      case False
      from P True have "is_obj h0 a" by (rule bspec)
      with inv have oa: "is_obj ?h a" by (rule frame_inv_obj)
      with others False have same: "?h' ! a = ?h ! a" by simp
      have less: "a < length ?h" using oa by (rule is_obj_less)
      then have less': "a < length ?h'" using len by simp
      from less less' same show ?thesis by (rule same_cell(1))
    qed
    show ?thesis unfolding eq by (rule hw')
  next
    case False
    with a have am: "a = m" by simp
    let ?cm = "read_field h0 m ''content''"
    from na have na_m: "\<not> is_array h0 ?cm" unfolding am .
    from False have "m \<notin> P" unfolding am .
    with outside m_obj have cell: "?h ! m = h0 ! m" by simp
    have m_less_s: "m < length ?h" using m_less len0 by simp
    from m_less m_less_s cell have cs: "read_field ?h m ''content'' = ?cm"
      by (rule same_cell(1))
    have m_obj_s: "is_obj ?h m" using inv m_obj by (rule frame_inv_obj)
    have na_s: "\<not> is_array ?h ?cm"
    proof
      assume "is_array ?h ?cm"
      then obtain xs where xs: "elements ?h ?cm = Some xs" unfolding is_array_def by auto
      then have "\<exists>r. ?cm = VRef r" by (rule elements_ref)
      then obtain r where r1: "?cm = VRef r" ..
      from xs have "elements ?h (VRef r) = Some xs" unfolding r1 .
      then have "r < length ?h \<and> ?h ! r = Arr xs" by (rule elements_less)
      with r1 have r: "?cm = VRef r" "r < length ?h" "?h ! r = Arr xs" by simp_all
      from m have "\<forall>r. ?cm = VRef r \<longrightarrow> r < length h0"
        by (simp add: message_at_def)
      with r(1) have r0: "r < length h0" by simp
      show False
      proof (cases "h0 ! r")
        case (Obj fs)
        with r0 have "is_obj h0 r" by (simp add: is_obj_def cell_at_def)
        with inv have "is_obj ?h r" by (rule frame_inv_obj)
        with r(3) show False by (auto dest: obj_not_arr)
      next
        case (Arr zs)
        with r0 have "is_array h0 (VRef r)" by (simp add: is_array_def elements_def cell_at_def)
        with na_m r(1) show False by simp
      qed
    qed
    let ?h1 = "normalize_ref m ?h"
    from na_s have "\<not> is_array ?h (read_field ?h m ''content'')" unfolding cs .
    with m_obj_s have "holds_wrapped (length ?h) (read_field ?h m ''content'') ?h1
        (read_field ?h1 m ''content'')" by (rule normalize_ref_wraps)
    then have hw1: "holds_wrapped (length ?h) ?cm ?h1 (read_field ?h1 m ''content'')"
      unfolding cs .
    have hw': "holds_wrapped (length ?h) ?cm ?h' (read_field ?h' m ''content'')"
    proof (cases "?h' = ?h1")
      case True
      show ?thesis unfolding True by (rule hw1)
    next
      case False
      from v have "?h' = ?h1 \<or> (\<exists>r xs ys. r < length ?h \<and> elements ?h1 (VRef r) = Some xs
          \<and> ?h' = ?h1[r := Arr (xs @ ys)])" unfolding via_def .
      with False obtain r xs ys where r: "r < length ?h" "elements ?h1 (VRef r) = Some xs"
        "?h' = ?h1[r := Arr (xs @ ys)]" by auto
      have same: "read_field (?h1[r := Arr (xs @ ys)]) m ''content'' = read_field ?h1 m ''content''"
        using r(2) by (rule array_update_props(3))
      have "holds_wrapped (length ?h) ?cm (?h1[r := Arr (xs @ ys)])
          (read_field ?h1 m ''content'')"
        using hw1 r(1,2) by (rule holds_wrapped_update)
      then show ?thesis unfolding r(3) same .
    qed
    then have "holds_wrapped (length h0) ?cm ?h' (read_field ?h' m ''content'')"
      using len0 by (rule holds_wrapped_mono)
    then show ?thesis unfolding am .
  qed
qed

lemma adapt_loop_ref_frame_wrapped:
  assumes "frame_inv h0 P s" and "wrapped_inv h0 P s"
    and "\<forall>a \<in> P. is_obj h0 a" and "\<forall>m \<in> set messages. message_at h0 m"
  shows "\<exists>s'. adapt_loop_ref messages s = Inr s'
           \<and> frame_inv h0 (P \<union> set messages) s' \<and> wrapped_inv h0 (P \<union> set messages) s'"
  using assms
proof (induction messages arbitrary: P s)
  case Nil
  then show ?case by simp
next
  case (Cons m messages)
  from Cons.prems have ma: "message_at h0 m" by simp
  then have m: "is_obj h0 m" by (simp add: message_at_def)
  have "is_obj (store s) m" using Cons.prems(1) m by (rule frame_inv_obj)
  moreover have "ready s" using Cons.prems(1,3) by (rule frame_inv_ready)
  ultimately obtain s1 where run: "adapt_message_ref m s = Inr s1"
    and mv: "moves m s s1" and v: "via m s s1"
    using adapt_message_ref_moves by blast
  have inv1: "frame_inv h0 (insert m P) s1"
    using Cons.prems(1,3) m mv by (rule frame_inv_moves)
  have winv1: "wrapped_inv h0 (insert m P) s1"
    using Cons.prems(1,2,3) ma mv v by (rule wrapped_inv_step)
  have P1: "\<forall>a \<in> insert m P. is_obj h0 a" using Cons.prems(3) m by simp
  have rest: "\<forall>m \<in> set messages. message_at h0 m" using Cons.prems(4) by simp
  from Cons.IH [OF inv1 winv1 P1 rest] obtain s' where
    "adapt_loop_ref messages s1 = Inr s'"
    and "frame_inv h0 (insert m P \<union> set messages) s'"
    and "wrapped_inv h0 (insert m P \<union> set messages) s'"
    by blast
  with run show ?case by simp
qed

lemma wrapped_inv_initial:
  "wrapped_inv h {} \<lparr>store = h, adapted_messages_ref = [], system_prompts_ref = [], previous_was_user_ref = False\<rparr>"
  by (simp add: wrapped_inv_def)

lemma read_field_array_update:
  assumes "elements h (VRef r) = Some xs"
  shows "read_field (h[r := Arr zs]) b k = read_field h b k"
proof -
  from assms have r: "r < length h" "h ! r = Arr xs" by (auto dest: elements_less)
  then show ?thesis by (cases "b = r") (simp_all add: read_field_def cell_at_def)
qed

lemma adapt_message_ref_outcome:
  assumes "adapt_message_ref m s = Inr s'"
  shows "outcome m s s'"
proof -
  let ?h = "normalize_ref m (store s)"
  let ?role = "read_field ?h m ''role''"
  from assms obtain fs where cell: "cell_at (store s) m = Some (Obj fs)"
    by (auto simp: adapt_message_ref_def split: option.splits cell.splits)
  show ?thesis
  proof (cases "?role = VStr ''user'' \<and> previous_was_user_ref s")
    case True
    with assms cell obtain r xs ys where "elements ?h (VRef r) = Some xs"
      and s': "s' = s\<lparr>store := ?h[r := Arr (xs @ ys)]\<rparr>"
      by (auto simp: adapt_message_ref_def Let_def split: if_splits val.splits option.splits)
    then have "read_field (store s') m ''role'' = ?role"
      by (simp add: read_field_array_update)
    with True show ?thesis by (simp add: outcome_def s')
  next
    case merge: False
    show ?thesis
    proof (cases "?role = VStr ''system''")
      case True
      with assms cell merge obtain ys where "elements ?h (read_field ?h m ''content'') = Some ys"
        and "s' = s\<lparr>store := ?h, system_prompts_ref := system_prompts_ref s @ ys\<rparr>"
        by (auto simp: adapt_message_ref_def Let_def split: if_splits option.splits)
      with True show ?thesis by (simp add: outcome_def)
    next
      case False
      with assms cell merge have "s' = s\<lparr>store := ?h,
          adapted_messages_ref := adapted_messages_ref s @ [m],
          previous_was_user_ref := (if ?role = VStr ''user'' then True else previous_was_user_ref s)\<rparr>"
        by (auto simp: adapt_message_ref_def Let_def split: if_splits)
      with False merge show ?thesis by (auto simp: outcome_def)
    qed
  qed
qed

lemma role_stable:
  assumes inv: "frame_inv h0 P s" and P: "\<forall>a \<in> P. is_obj h0 a" and mv: "moves m s s'"
    and a: "a \<in> P"
  shows "read_field (store s') a ''role'' = read_field (store s) a ''role''"
proof (cases "a = m")
  case True
  from inv a have "val_truthy (read_field (store s) a ''role'')
      \<and> is_array (store s) (read_field (store s) a ''content'')"
    unfolding frame_inv_def by blast
  then have truthy: "val_truthy (read_field (store s) m ''role'')" unfolding True by (rule conjunct1)
  from mv have "obj_rel (store s) (store s') m" by (simp add: moves_def)
  then have "role_kept (read_field (store s) m ''role'') (read_field (store s') m ''role'')"
    by (simp add: obj_rel_def)
  with truthy show ?thesis unfolding True by (auto simp: role_kept_def)
next
  case False
  from P a have "is_obj h0 a" by (rule bspec)
  with inv have obj: "is_obj (store s) a" by (rule frame_inv_obj)
  from mv have "\<forall>b. is_obj (store s) b \<longrightarrow> b \<noteq> m \<longrightarrow> store s' ! b = store s ! b"
    by (simp add: moves_def)
  with obj False have same: "store s' ! a = store s ! a" by simp
  have less: "a < length (store s)" using obj by (rule is_obj_less)
  from mv have "length (store s) \<le> length (store s')" by (simp add: moves_def)
  with less have less': "a < length (store s')" by simp
  from less less' same show ?thesis by (rule same_cell(1))
qed

lemma placed_inv_step:
  assumes inv: "frame_inv h0 P s" and P: "\<forall>a \<in> P. is_obj h0 a"
    and mv: "moves m s s'" and out: "outcome m s s'" and pl: "placed_inv s"
  shows "placed_inv s'"
proof -
  let ?role = "read_field (store s') m ''role''"
  from inv have sub: "set (adapted_messages_ref s) \<subseteq> P" by (simp add: frame_inv_def)
  have stable: "\<And>a. a \<in> set (adapted_messages_ref s) \<Longrightarrow>
      read_field (store s') a ''role'' = read_field (store s) a ''role''"
  proof -
    fix a assume "a \<in> set (adapted_messages_ref s)"
    with sub have "a \<in> P" by auto
    with inv P mv show "read_field (store s') a ''role'' = read_field (store s) a ''role''"
      by (rule role_stable)
  qed
  have users: "filter (\<lambda>a. read_field (store s') a ''role'' = VStr ''user'') (adapted_messages_ref s)
      = user_entries s"
    unfolding user_entries_def by (rule filter_cong) (simp_all add: stable)
  from pl have no_system: "\<forall>a \<in> set (adapted_messages_ref s).
      read_field (store s) a ''role'' \<noteq> VStr ''system''"
    and count: "length (user_entries s) \<le> (if previous_was_user_ref s then 1 else 0)"
    by (simp_all add: placed_inv_def)
  from out have "(adapted_messages_ref s' = adapted_messages_ref s
               \<and> previous_was_user_ref s' = previous_was_user_ref s)
             \<or> (adapted_messages_ref s' = adapted_messages_ref s @ [m]
                 \<and> ?role \<noteq> VStr ''system''
                 \<and> (?role = VStr ''user'' \<longrightarrow> \<not> previous_was_user_ref s)
                 \<and> previous_was_user_ref s' = (previous_was_user_ref s \<or> ?role = VStr ''user''))"
    by (simp add: outcome_def Let_def)
  then show ?thesis
  proof
    assume same: "adapted_messages_ref s' = adapted_messages_ref s
               \<and> previous_was_user_ref s' = previous_was_user_ref s"
    then have "user_entries s' = user_entries s" using users by (simp add: user_entries_def)
    with same no_system count stable show ?thesis by (simp add: placed_inv_def)
  next
    assume placed: "adapted_messages_ref s' = adapted_messages_ref s @ [m]
                 \<and> ?role \<noteq> VStr ''system''
                 \<and> (?role = VStr ''user'' \<longrightarrow> \<not> previous_was_user_ref s)
                 \<and> previous_was_user_ref s' = (previous_was_user_ref s \<or> ?role = VStr ''user'')"
    then have entries: "user_entries s' =
        user_entries s @ (if ?role = VStr ''user'' then [m] else [])"
      using users by (simp add: user_entries_def)
    have roles: "\<forall>a \<in> set (adapted_messages_ref s'). read_field (store s') a ''role'' \<noteq> VStr ''system''"
      using placed no_system stable by auto
    have "length (user_entries s') \<le> (if previous_was_user_ref s' then 1 else 0)"
    proof (cases "?role = VStr ''user''")
      case True
      with placed have "\<not> previous_was_user_ref s" and "previous_was_user_ref s'" by simp_all
      with count entries True show ?thesis by simp
    next
      case False
      with placed have "previous_was_user_ref s' = previous_was_user_ref s" by simp
      with count entries False show ?thesis by simp
    qed
    with roles show ?thesis by (simp add: placed_inv_def)
  qed
qed

lemma wrapped_part_persists:
  assumes "wrapped_part n c h w" and "length h \<le> length h'"
    and "\<And>p fs. n \<le> p \<Longrightarrow> p < length h \<Longrightarrow> h ! p = Obj fs \<Longrightarrow> h' ! p = h ! p"
  shows "wrapped_part n c h' w"
proof (cases "\<exists>t. c = VStr t")
  case True
  then obtain t where t: "c = VStr t" by blast
  with assms(1) obtain p where p: "w = VRef p" "n \<le> p" "p < length h"
      "h ! p = Obj [(''type'', VStr ''text''), (''text'', VStr t)]"
    by (auto simp: wrapped_part_def)
  from assms(3) [OF p(2,3,4)] p(4) have "h' ! p = Obj [(''type'', VStr ''text''), (''text'', VStr t)]"
    by simp
  with p assms(2) show ?thesis by (simp add: wrapped_part_def t)
next
  case False
  with assms(1) show ?thesis by (cases c) (simp_all add: wrapped_part_def)
qed

lemma begins_with_parts_persists:
  assumes "begins_with_parts h0 h m seg" and "length h \<le> length h'"
    and "\<And>p fs. length h0 \<le> p \<Longrightarrow> p < length h \<Longrightarrow> h ! p = Obj fs \<Longrightarrow> h' ! p = h ! p"
  shows "begins_with_parts h0 h' m seg"
proof (cases "elements h0 (read_field h0 m ''content'')")
  case None
  with assms(1) obtain w ys where seg: "seg = w # ys"
    and part: "wrapped_part (length h0) (read_field h0 m ''content'') h w"
    by (auto simp: begins_with_parts_def)
  from part assms(2,3) have "wrapped_part (length h0) (read_field h0 m ''content'') h' w"
    by (rule wrapped_part_persists)
  with seg None show ?thesis by (simp add: begins_with_parts_def)
next
  case (Some xs)
  with assms(1) show ?thesis by (simp add: begins_with_parts_def)
qed

lemma content_begins_with:
  assumes inv: "frame_inv h0 P s" and winv: "wrapped_inv h0 P s"
    and m: "m \<in> P" and obj: "is_obj h0 m"
    and ys: "elements (store s) (read_field (store s) m ''content'') = Some ys"
  shows "begins_with_parts h0 (store s) m ys"
proof (cases "elements h0 (read_field h0 m ''content'')")
  case None
  then have "\<not> is_array h0 (read_field h0 m ''content'')" by (simp add: is_array_def)
  moreover from winv have "\<forall>a \<in> P. \<not> is_array h0 (read_field h0 a ''content'') \<longrightarrow>
        holds_wrapped (length h0) (read_field h0 a ''content'') (store s)
          (read_field (store s) a ''content'')" unfolding wrapped_inv_def .
  then have "\<not> is_array h0 (read_field h0 m ''content'') \<longrightarrow>
        holds_wrapped (length h0) (read_field h0 m ''content'') (store s)
          (read_field (store s) m ''content'')" using m by (rule bspec)
  ultimately have "holds_wrapped (length h0) (read_field h0 m ''content'') (store s)
          (read_field (store s) m ''content'')" by simp
  then obtain r w zs where r: "read_field (store s) m ''content'' = VRef r"
    "r < length (store s)" "store s ! r = Arr (w # zs)"
    and part: "wrapped_part (length h0) (read_field h0 m ''content'') (store s) w"
    unfolding holds_wrapped_def by blast
  from r have "elements (store s) (read_field (store s) m ''content'') = Some (w # zs)"
    by (simp add: elements_def cell_at_def)
  with ys have "ys = w # zs" by simp
  with part None show ?thesis by (simp add: begins_with_parts_def)
next
  case (Some xs)
  then obtain a where c0: "read_field h0 m ''content'' = VRef a" by (auto dest: elements_ref)
  with Some have a: "a < length h0" "h0 ! a = Arr xs" by (auto dest: elements_less)
  from Some have arr: "is_array h0 (read_field h0 m ''content'')" by (simp add: is_array_def)
  from inv obj have "obj_rel h0 (store s) m" by (simp add: frame_inv_def)
  then have "content_kept h0 (read_field h0 m ''content'') (read_field (store s) m ''content'')"
    by (simp add: obj_rel_def)
  with arr have c1: "read_field (store s) m ''content'' = VRef a"
    by (simp add: content_kept_def c0)
  from inv have "\<forall>a xs. a < length h0 \<longrightarrow> h0 ! a = Arr xs \<longrightarrow>
           (\<exists>extra. store s ! a = Arr (xs @ extra)
              \<and> (extra \<noteq> [] \<longrightarrow> (\<exists>m \<in> P. read_field h0 m ''content'' = VRef a)))"
    by (simp add: frame_inv_def)
  from this [rule_format, OF a] obtain extra where "store s ! a = Arr (xs @ extra)"
    by (elim exE conjE)
  moreover from inv have "length h0 \<le> length (store s)" by (simp add: frame_inv_def)
  ultimately have "elements (store s) (VRef a) = Some (xs @ extra)"
    using a(1) by (simp add: elements_def cell_at_def)
  with ys c1 have "ys = xs @ extra" by simp
  with Some show ?thesis by (simp add: begins_with_parts_def)
qed

lemma prompts_inv_step:
  assumes inv: "frame_inv h0 (set seen) s"
    and inv1: "frame_inv h0 (insert m (set seen)) s'"
    and winv1: "wrapped_inv h0 (insert m (set seen)) s'"
    and obj: "is_obj h0 m" and mv: "moves m s s'" and out: "outcome m s s'"
    and pr: "prompts_inv h0 seen s"
  shows "prompts_inv h0 (seen @ [m]) s'"
proof -
  let ?role = "read_field (store s') m ''role''"
  from pr obtain segs where segs: "system_prompts_ref s = concat segs"
    and all: "list_all2 (begins_with_parts h0 (store s)) (system_messages h0 seen) segs"
    by (auto simp: prompts_inv_def)
  from inv have len0: "length h0 \<le> length (store s)" by (simp add: frame_inv_def)
  from mv have len: "length (store s) \<le> length (store s')" by (simp add: moves_def)
  from mv have others: "\<forall>b. is_obj (store s) b \<longrightarrow> b \<noteq> m \<longrightarrow> store s' ! b = store s ! b"
    by (simp add: moves_def)
  from obj have m_less: "m < length h0" by (rule is_obj_less)
  have fresh: "\<And>p fs. length h0 \<le> p \<Longrightarrow> p < length (store s) \<Longrightarrow> store s ! p = Obj fs
      \<Longrightarrow> store s' ! p = store s ! p"
  proof -
    fix p fs assume p: "length h0 \<le> p" "p < length (store s)" "store s ! p = Obj fs"
    then have "is_obj (store s) p" by (simp add: is_obj_def cell_at_def)
    moreover have "p \<noteq> m" using p(1) m_less by simp
    ultimately show "store s' ! p = store s ! p" using others by simp
  qed
  have all': "list_all2 (begins_with_parts h0 (store s')) (system_messages h0 seen) segs"
    using all
  proof (rule list_all2_mono)
    fix a seg assume "begins_with_parts h0 (store s) a seg"
    then show "begins_with_parts h0 (store s') a seg"
      using len fresh by (rule begins_with_parts_persists)
  qed
  from inv1 obj have "obj_rel h0 (store s') m" by (simp add: frame_inv_def)
  then have "role_kept (read_field h0 m ''role'') ?role" by (simp add: obj_rel_def)
  then have role: "?role = VStr ''system'' \<longleftrightarrow> read_field h0 m ''role'' = VStr ''system''"
    by (auto simp: role_kept_def)
  show ?thesis
  proof (cases "?role = VStr ''system''")
    case True
    with out obtain ys where ys: "elements (store s') (read_field (store s') m ''content'') = Some ys"
      and prompts: "system_prompts_ref s' = system_prompts_ref s @ ys"
      by (auto simp: outcome_def Let_def)
    have "m \<in> insert m (set seen)" by simp
    with inv1 winv1 have "begins_with_parts h0 (store s') m ys"
      using obj ys by (rule content_begins_with)
    with all' have "list_all2 (begins_with_parts h0 (store s'))
        (system_messages h0 seen @ [m]) (segs @ [ys])"
      by (simp add: list_all2_appendI)
    moreover have "system_messages h0 (seen @ [m]) = system_messages h0 seen @ [m]"
      using True role by (simp add: system_messages_def)
    moreover have "system_prompts_ref s' = concat (segs @ [ys])"
      using prompts segs by simp
    ultimately show ?thesis unfolding prompts_inv_def by (intro exI [of _ "segs @ [ys]"]) simp
  next
    case False
    with out have "system_prompts_ref s' = system_prompts_ref s"
      by (simp add: outcome_def Let_def)
    moreover have "system_messages h0 (seen @ [m]) = system_messages h0 seen"
      using False role by (simp add: system_messages_def)
    ultimately show ?thesis unfolding prompts_inv_def using segs all'
      by (intro exI [of _ segs]) simp
  qed
qed

lemma adapt_loop_ref_placed:
  assumes "frame_inv h0 (set seen) s" and "wrapped_inv h0 (set seen) s"
    and "\<forall>a \<in> set seen. is_obj h0 a" and "\<forall>m \<in> set messages. message_at h0 m"
    and "placed_inv s" and "prompts_inv h0 seen s"
  shows "\<exists>s'. adapt_loop_ref messages s = Inr s' \<and> placed_inv s'
           \<and> prompts_inv h0 (seen @ messages) s'"
  using assms
proof (induction messages arbitrary: seen s)
  case Nil
  then show ?case by simp
next
  case (Cons m messages)
  from Cons.prems(4) have ma: "message_at h0 m" by simp
  then have m: "is_obj h0 m" by (simp add: message_at_def)
  have "is_obj (store s) m" using Cons.prems(1) m by (rule frame_inv_obj)
  moreover have "ready s" using Cons.prems(1,3) by (rule frame_inv_ready)
  ultimately obtain s1 where run: "adapt_message_ref m s = Inr s1"
    and mv: "moves m s s1" and v: "via m s s1"
    using adapt_message_ref_moves by blast
  from run have out: "outcome m s s1" by (rule adapt_message_ref_outcome)
  have inv1: "frame_inv h0 (insert m (set seen)) s1"
    using Cons.prems(1,3) m mv by (rule frame_inv_moves)
  have winv1: "wrapped_inv h0 (insert m (set seen)) s1"
    using Cons.prems(1,2,3) ma mv v by (rule wrapped_inv_step)
  have pl1: "placed_inv s1"
    using Cons.prems(1,3) mv out Cons.prems(5) by (rule placed_inv_step)
  have pr1: "prompts_inv h0 (seen @ [m]) s1"
    using Cons.prems(1) inv1 winv1 m mv out Cons.prems(6) by (rule prompts_inv_step)
  have set1: "set (seen @ [m]) = insert m (set seen)" by simp
  have P1: "\<forall>a \<in> set (seen @ [m]). is_obj h0 a" using Cons.prems(3) m by simp
  have rest: "\<forall>m \<in> set messages. message_at h0 m" using Cons.prems(4) by simp
  from Cons.IH [of "seen @ [m]" s1] inv1 winv1 P1 rest pl1 pr1 set1
  obtain s' where "adapt_loop_ref messages s1 = Inr s'" and "placed_inv s'"
    and "prompts_inv h0 ((seen @ [m]) @ messages) s'"
    by auto
  with run show ?case by simp
qed

text \<open>
  The two arrays when content arrays may be shared. For every store and every sequence of
  messages of it the loop returns; no entry of \<open>adapted_messages\<close> has the role
  \<open>'system'\<close>; at most one entry has the role \<open>'user'\<close>, so no two neighbours have it;
  and \<open>system_prompts\<close> is made of one segment for each system message, in the order in
  which the messages come, each segment beginning with the content parts of its message.
\<close>

lemma placed_entries_in_store:
  assumes "\<forall>m \<in> set messages. message_at h m"
  shows "\<exists>s. adapt_messages_ref h messages = Inr s
     \<and> (\<forall>a \<in> set (adapted_messages_ref s). read_field (store s) a ''role'' \<noteq> VStr ''system'')
     \<and> length (user_entries s) \<le> 1
     \<and> (\<exists>segs. system_prompts_ref s = concat segs
           \<and> list_all2 (begins_with_parts h (store s)) (system_messages h messages) segs)"
proof -
  let ?init = "\<lparr>store = h, adapted_messages_ref = [], system_prompts_ref = [],
                previous_was_user_ref = False\<rparr>"
  have "frame_inv h (set []) ?init" and "wrapped_inv h (set []) ?init"
    using frame_inv_initial [of h] wrapped_inv_initial [of h] by simp_all
  moreover have "\<forall>a \<in> set []. is_obj h a" by simp
  moreover note assms
  moreover have "placed_inv ?init" by (simp add: placed_inv_def user_entries_def)
  moreover have "prompts_inv h [] ?init" by (simp add: prompts_inv_def system_messages_def)
  ultimately have "\<exists>s'. adapt_loop_ref messages ?init = Inr s' \<and> placed_inv s'
           \<and> prompts_inv h ([] @ messages) s'"
    by (rule adapt_loop_ref_placed)
  then obtain s where run: "adapt_loop_ref messages ?init = Inr s" and pl: "placed_inv s"
    and pr: "prompts_inv h messages s" by auto
  from pl have "length (user_entries s) \<le> 1" by (simp add: placed_inv_def split: if_splits)
  with run pl pr show ?thesis
    unfolding adapt_messages_ref_def placed_inv_def prompts_inv_def by (intro exI [of _ s]) simp
qed

text \<open>
  The conversation user, assistant, user on the store: two entries are placed, and the
  assistant's array (cell 7) holds the part of the third message (cell 8) after its own.
\<close>

lemma conversation_on_store:
  "normalize_messages_ref conversation_cells [0, 1, 2] =
     Inr ([0, 1], [],
          [Obj [(''role'', VStr ''user''), (''content'', VRef 5)],
           Obj [(''role'', VStr ''assistant''), (''content'', VRef 7)],
           Obj [(''role'', VStr ''user''), (''content'', VRef 9)],
           Obj [(''role'', VStr ''system''), (''content'', VStr ''s'')],
           Obj [(''type'', VStr ''text''), (''text'', VStr ''a'')],
           Arr [VRef 4],
           Obj [(''type'', VStr ''text''), (''text'', VStr ''b'')],
           Arr [VRef 6, VRef 8],
           Obj [(''type'', VStr ''text''), (''text'', VStr ''c'')],
           Arr [VRef 8]])"
  by code_simp

text \<open>
  C3, as the code has it. The loop writes to the caller's message objects in place. For
  every store and every sequence of messages of it the loop returns, the entries of
  \<open>adapted_messages\<close> are objects of the sequence, and in the store it leaves behind:
  an object that is not in the sequence has the fields and references it had; an array that
  was there before has the elements it had, followed by what merging appended, and
  something was appended only if the array was the content of a message of the sequence
  (so an object outside the sequence that shares this array sees the appended parts); a
  message of the sequence has every field other than \<open>role\<close> and \<open>content\<close> as before, its
  \<open>role\<close> is the role it had, or \<open>'user'\<close> when that was falsy, and its \<open>content\<close> is the
  array it had or, when it had none, a new array that begins with the old content, a
  string wrapped as a new text part.
\<close>

theorem normalization_writes_through_references:
  assumes "\<forall>m \<in> set messages. message_at h m"
  shows "\<exists>s. adapt_messages_ref h messages = Inr s
     \<and> length h \<le> length (store s)
     \<and> set (adapted_messages_ref s) \<subseteq> set messages
     \<and> (\<forall>a. is_obj h a \<longrightarrow> a \<notin> set messages \<longrightarrow> store s ! a = h ! a)
     \<and> (\<forall>a xs. a < length h \<longrightarrow> h ! a = Arr xs \<longrightarrow>
           (\<exists>extra. store s ! a = Arr (xs @ extra)
              \<and> (extra \<noteq> [] \<longrightarrow> (\<exists>m \<in> set messages. read_field h m ''content'' = VRef a))))
     \<and> (\<forall>m \<in> set messages.
           is_obj (store s) m
           \<and> (\<forall>k. k \<noteq> ''role'' \<longrightarrow> k \<noteq> ''content'' \<longrightarrow>
                  read_field (store s) m k = read_field h m k)
           \<and> read_field (store s) m ''role'' = effective_role_ref (read_field h m ''role'')
           \<and> (if is_array h (read_field h m ''content'')
               then read_field (store s) m ''content'' = read_field h m ''content''
               else holds_wrapped (length h) (read_field h m ''content'') (store s)
                      (read_field (store s) m ''content'')))"
proof -
  let ?init = "\<lparr>store = h, adapted_messages_ref = [], system_prompts_ref = [], previous_was_user_ref = False\<rparr>"
  have objs: "\<forall>a \<in> {}. is_obj h a" by simp
  from adapt_loop_ref_frame_wrapped [OF frame_inv_initial wrapped_inv_initial objs assms]
  obtain s where run: "adapt_loop_ref messages ?init = Inr s"
    and inv: "frame_inv h (set messages) s" and winv: "wrapped_inv h (set messages) s"
    by auto
  from inv have len: "length h \<le> length (store s)" by (simp add: frame_inv_def)
  from inv have sub: "set (adapted_messages_ref s) \<subseteq> set messages" by (simp add: frame_inv_def)
  from inv have outside: "\<forall>a. is_obj h a \<longrightarrow> a \<notin> set messages \<longrightarrow> store s ! a = h ! a"
    by (simp add: frame_inv_def)
  from inv have arrays: "\<forall>a xs. a < length h \<longrightarrow> h ! a = Arr xs \<longrightarrow>
           (\<exists>extra. store s ! a = Arr (xs @ extra)
              \<and> (extra \<noteq> [] \<longrightarrow> (\<exists>m \<in> set messages. read_field h m ''content'' = VRef a)))"
    by (simp add: frame_inv_def)
  from inv have rel: "\<forall>a. is_obj h a \<longrightarrow> obj_rel h (store s) a" by (simp add: frame_inv_def)
  from inv have inside: "\<forall>a \<in> set messages. val_truthy (read_field (store s) a ''role'')
                  \<and> is_array (store s) (read_field (store s) a ''content'')"
    by (simp add: frame_inv_def)
  have written: "\<forall>m \<in> set messages.
           is_obj (store s) m
           \<and> (\<forall>k. k \<noteq> ''role'' \<longrightarrow> k \<noteq> ''content'' \<longrightarrow>
                  read_field (store s) m k = read_field h m k)
           \<and> read_field (store s) m ''role'' = effective_role_ref (read_field h m ''role'')
           \<and> (if is_array h (read_field h m ''content'')
               then read_field (store s) m ''content'' = read_field h m ''content''
               else holds_wrapped (length h) (read_field h m ''content'') (store s)
                      (read_field (store s) m ''content''))"
  proof
    fix m assume m: "m \<in> set messages"
    let ?before = "read_field h m ''role''" and ?after = "read_field (store s) m ''role''"
    let ?was = "read_field h m ''content''" and ?now = "read_field (store s) m ''content''"
    from assms m have "message_at h m" by (rule bspec)
    then have "is_obj h m" by (simp add: message_at_def)
    with rel have r: "obj_rel h (store s) m" by simp
    then have obj: "is_obj (store s) m" by (simp add: obj_rel_def)
    from r have others: "\<forall>k. k \<noteq> ''role'' \<longrightarrow> k \<noteq> ''content'' \<longrightarrow>
                  read_field (store s) m k = read_field h m k" by (simp add: obj_rel_def)
    from r have rk: "role_kept ?before ?after" by (simp add: obj_rel_def)
    from r have ck: "content_kept h ?was ?now" by (simp add: obj_rel_def)
    from inside m have "val_truthy ?after \<and> is_array (store s) ?now" by (rule bspec)
    then have truthy: "val_truthy ?after" by (rule conjunct1)
    have role: "?after = effective_role_ref ?before"
    proof (cases "?after = ?before")
      case True
      with truthy show ?thesis by (simp add: effective_role_ref_def)
    next
      case False
      with rk have "\<not> val_truthy ?before \<and> ?after = VStr ''user''" by (simp add: role_kept_def)
      then show ?thesis by (simp add: effective_role_ref_def)
    qed
    have content: "if is_array h ?was then ?now = ?was
               else holds_wrapped (length h) ?was (store s) ?now"
    proof (cases "is_array h ?was")
      case True
      with ck have "?now = ?was" by (simp add: content_kept_def)
      with True show ?thesis by simp
    next
      case False
      from winv have "\<forall>a \<in> set messages. \<not> is_array h (read_field h a ''content'') \<longrightarrow>
        holds_wrapped (length h) (read_field h a ''content'') (store s)
          (read_field (store s) a ''content'')" unfolding wrapped_inv_def .
      then have "\<not> is_array h ?was \<longrightarrow> holds_wrapped (length h) ?was (store s) ?now"
        using m by (rule bspec)
      with False show ?thesis by simp
    qed
    from obj others role content show "is_obj (store s) m
           \<and> (\<forall>k. k \<noteq> ''role'' \<longrightarrow> k \<noteq> ''content'' \<longrightarrow>
                  read_field (store s) m k = read_field h m k)
           \<and> ?after = effective_role_ref ?before
           \<and> (if is_array h ?was then ?now = ?was
               else holds_wrapped (length h) ?was (store s) ?now)"
      by (intro conjI)
  qed
  from run have "adapt_messages_ref h messages = Inr s" by (simp add: adapt_messages_ref_def)
  with len sub outside arrays written show ?thesis
    by (intro exI [of _ s] conjI)
qed

text \<open>
  The claim as worded leaves the caller's objects as they were. A user message with a
  string as content refers to a new array of one new text part after the call.
\<close>

theorem caller_content_replaced:
  "read_field [Obj [(''role'', VStr ''user''), (''content'', VStr ''hi'')]] 0 ''content'' = VStr ''hi''
   \<and> store_after [Obj [(''role'', VStr ''user''), (''content'', VStr ''hi'')]] [0] =
       Inr [Obj [(''role'', VStr ''user''), (''content'', VRef 2)],
            Obj [(''type'', VStr ''text''), (''text'', VStr ''hi'')],
            Arr [VRef 1]]"
  by code_simp

text \<open>
  A message that shares its content array with a history entry, then a message without a
  role: the history entry (cell 2) keeps its fields, the array it shares (cell 0) has
  grown by the part of the second message, and the second message has the role
  \<open>'user'\<close> and a new array.
\<close>

theorem normalization_writes_through_references_witness:
  "\<exists>s. adapt_messages_ref shared_content [3, 4] = Inr s
     \<and> store s ! 2 = shared_content ! 2
     \<and> (\<exists>extra. store s ! 0 = Arr ([VRef 1] @ extra))
     \<and> read_field (store s) 3 ''content'' = VRef 0
     \<and> read_field (store s) 4 ''role'' = VStr ''user''
     \<and> holds_wrapped 5 (VStr ''x'') (store s) (read_field (store s) 4 ''content'')
     \<and> store_after shared_content [3, 4] =
         Inr [Arr [VRef 1, VRef 5],
              Obj [(''type'', VStr ''text''), (''text'', VStr ''p'')],
              Obj [(''role'', VStr ''user''), (''content'', VRef 0), (''id'', VNum 7)],
              Obj [(''role'', VStr ''user''), (''content'', VRef 0)],
              Obj [(''content'', VRef 6), (''role'', VStr ''user'')],
              Obj [(''type'', VStr ''text''), (''text'', VStr ''x'')],
              Arr [VRef 5]]"
proof -
  have after: "store_after shared_content [3, 4] =
         Inr [Arr [VRef 1, VRef 5],
              Obj [(''type'', VStr ''text''), (''text'', VStr ''p'')],
              Obj [(''role'', VStr ''user''), (''content'', VRef 0), (''id'', VNum 7)],
              Obj [(''role'', VStr ''user''), (''content'', VRef 0)],
              Obj [(''content'', VRef 6), (''role'', VStr ''user'')],
              Obj [(''type'', VStr ''text''), (''text'', VStr ''x'')],
              Arr [VRef 5]]"
    by code_simp
  have msgs: "\<forall>m \<in> set [3, 4]. message_at shared_content m"
    by (simp add: message_at_def is_obj_def cell_at_def read_field_def shared_content_def)
  from normalization_writes_through_references [OF msgs]
  obtain s where run: "adapt_messages_ref shared_content [3, 4] = Inr s"
    and outside: "\<forall>a. is_obj shared_content a \<longrightarrow> a \<notin> set [3, 4] \<longrightarrow> store s ! a = shared_content ! a"
    and arrays: "\<forall>a xs. a < length shared_content \<longrightarrow> shared_content ! a = Arr xs \<longrightarrow>
           (\<exists>extra. store s ! a = Arr (xs @ extra)
              \<and> (extra \<noteq> [] \<longrightarrow> (\<exists>m \<in> set [3, 4]. read_field shared_content m ''content'' = VRef a)))"
    and written: "\<forall>m \<in> set [3, 4].
           is_obj (store s) m
           \<and> (\<forall>k. k \<noteq> ''role'' \<longrightarrow> k \<noteq> ''content'' \<longrightarrow>
                  read_field (store s) m k = read_field shared_content m k)
           \<and> read_field (store s) m ''role'' = effective_role_ref (read_field shared_content m ''role'')
           \<and> (if is_array shared_content (read_field shared_content m ''content'')
               then read_field (store s) m ''content'' = read_field shared_content m ''content''
               else holds_wrapped (length shared_content) (read_field shared_content m ''content'') (store s)
                      (read_field (store s) m ''content''))"
    by (elim exE conjE)
  have "is_obj shared_content 2" and "(2::nat) \<notin> set [3, 4]"
    by (simp_all add: is_obj_def cell_at_def shared_content_def)
  with outside have two: "store s ! 2 = shared_content ! 2" by simp
  have lt: "0 < length shared_content" and cell: "shared_content ! 0 = Arr [VRef 1]"
    by (simp_all add: shared_content_def)
  from arrays [rule_format, OF lt cell]
  obtain extra where "store s ! 0 = Arr ([VRef 1] @ extra)" by (elim exE conjE)
  then have zero: "\<exists>extra. store s ! 0 = Arr ([VRef 1] @ extra)" by (rule exI)
  have c3: "read_field shared_content 3 ''content'' = VRef 0"
    and a3: "is_array shared_content (VRef 0)"
    and c4: "read_field shared_content 4 ''content'' = VStr ''x''"
    and r4: "read_field shared_content 4 ''role'' = VUndefined"
    and a4: "\<not> is_array shared_content (VStr ''x'')"
    and len: "length shared_content = 5"
    by (simp_all add: read_field_def cell_at_def is_array_def elements_def shared_content_def)
  have "(3::nat) \<in> set [3, 4]" by simp
  with written have "is_obj (store s) 3
           \<and> (\<forall>k. k \<noteq> ''role'' \<longrightarrow> k \<noteq> ''content'' \<longrightarrow>
                  read_field (store s) 3 k = read_field shared_content 3 k)
           \<and> read_field (store s) 3 ''role'' = effective_role_ref (read_field shared_content 3 ''role'')
           \<and> (if is_array shared_content (read_field shared_content 3 ''content'')
               then read_field (store s) 3 ''content'' = read_field shared_content 3 ''content''
               else holds_wrapped (length shared_content) (read_field shared_content 3 ''content'') (store s)
                      (read_field (store s) 3 ''content''))"
    by (rule bspec)
  then have three: "read_field (store s) 3 ''content'' = VRef 0"
    unfolding c3 using a3 by simp
  have "(4::nat) \<in> set [3, 4]" by simp
  with written have "is_obj (store s) 4
           \<and> (\<forall>k. k \<noteq> ''role'' \<longrightarrow> k \<noteq> ''content'' \<longrightarrow>
                  read_field (store s) 4 k = read_field shared_content 4 k)
           \<and> read_field (store s) 4 ''role'' = effective_role_ref (read_field shared_content 4 ''role'')
           \<and> (if is_array shared_content (read_field shared_content 4 ''content'')
               then read_field (store s) 4 ''content'' = read_field shared_content 4 ''content''
               else holds_wrapped (length shared_content) (read_field shared_content 4 ''content'') (store s)
                      (read_field (store s) 4 ''content''))"
    by (rule bspec)
  then have four: "read_field (store s) 4 ''role'' = VStr ''user''"
    and wrapped: "holds_wrapped 5 (VStr ''x'') (store s) (read_field (store s) 4 ''content'')"
    unfolding c4 r4 len using a4 by (simp_all add: effective_role_ref_def)
  show ?thesis
    by (rule exI [of _ s]) (intro conjI run two zero three four wrapped after)
qed

section \<open>Properties of the token budget and the transcoder\<close>

lemma budget_check:
  "(token_count stringify adapted prompts > 10000 \<longrightarrow>
      complete_adapted stringify completion response adapted prompts stream model
        = ([], Threw (max_tokens_exceeded (token_count stringify adapted prompts) 10000)))
   \<and> (token_count stringify adapted prompts \<le> 10000 \<longrightarrow>
      fst (complete_adapted stringify completion response adapted prompts stream model) \<noteq> []
      \<and> (\<forall>x y. snd (complete_adapted stringify completion response adapted prompts stream model)
             \<noteq> Threw (max_tokens_exceeded x y)))"
  by (simp add: complete_adapted_def MAX_CLAUDE_INPUT_TOKENS_def Let_def)

lemma complete_eq:
  "\<exists>s. adapt_messages h messages = Inr s
     \<and> complete_chat stringify completion response h messages stream model =
         complete_adapted stringify completion response
           (adapted_values s) (system_prompts s) stream model"
  using adapt_loop_eq [OF adapter_inv_initial, of messages h]
  by (simp add: complete_chat_def adapt_messages_def)

text \<open>
  C4. For all adapted messages and system prompts the estimate is the sum of the two
  serialized lengths divided by 4; \<open>complete\<close> throws \<open>max_tokens_exceeded\<close> exactly when
  the estimate is greater than 10000, with the estimate as \<open>input_tokens\<close> and 10000 as
  \<open>max_tokens\<close>, and has then called the provider not at all; with an estimate of at most
  10000 the provider is called. \<open>complete\<close> runs this on the arrays its loop has built.
\<close>

theorem token_budget_enforced:
  "(let estimate = token_count stringify adapted prompts;
        r = complete_adapted stringify completion response adapted prompts stream model
    in estimate = of_nat (length (stringify (JArr adapted)) + length (stringify (JArr prompts))) / 4
       \<and> ((\<exists>x y. snd r = Threw (max_tokens_exceeded x y)) \<longleftrightarrow> estimate > 10000)
       \<and> (estimate > 10000 \<longrightarrow> r = ([], Threw (max_tokens_exceeded estimate 10000)))
       \<and> (estimate \<le> 10000 \<longrightarrow> fst r \<noteq> []))
   \<and> (\<exists>s. adapt_messages h messages = Inr s
          \<and> complete_chat stringify completion response h messages stream model =
              complete_adapted stringify completion response
                (adapted_values s) (system_prompts s) stream model)"
proof -
  define estimate where "estimate = token_count stringify adapted prompts"
  define r where "r = complete_adapted stringify completion response adapted prompts stream model"
  have len: "estimate =
      of_nat (length (stringify (JArr adapted)) + length (stringify (JArr prompts))) / 4"
    by (simp add: estimate_def token_count_def)
  have over: "estimate > 10000 \<longrightarrow> r = ([], Threw (max_tokens_exceeded estimate 10000))"
    and under: "estimate \<le> 10000 \<longrightarrow>
      fst r \<noteq> [] \<and> (\<forall>x y. snd r \<noteq> Threw (max_tokens_exceeded x y))"
    using budget_check [of stringify adapted prompts completion response stream model]
    by (simp_all add: estimate_def r_def)
  have iff: "(\<exists>x y. snd r = Threw (max_tokens_exceeded x y)) \<longleftrightarrow> estimate > 10000"
  proof (cases "estimate > 10000")
    case True
    with over show ?thesis by simp
  next
    case False
    with under show ?thesis by simp
  qed
  from under have nonempty: "estimate \<le> 10000 \<longrightarrow> fst r \<noteq> []" by simp
  have guard: "let estimate = token_count stringify adapted prompts;
        r = complete_adapted stringify completion response adapted prompts stream model
    in estimate = of_nat (length (stringify (JArr adapted)) + length (stringify (JArr prompts))) / 4
       \<and> ((\<exists>x y. snd r = Threw (max_tokens_exceeded x y)) \<longleftrightarrow> estimate > 10000)
       \<and> (estimate > 10000 \<longrightarrow> r = ([], Threw (max_tokens_exceeded estimate 10000)))
       \<and> (estimate \<le> 10000 \<longrightarrow> fst r \<noteq> [])"
    unfolding Let_def estimate_def [symmetric] r_def [symmetric]
    by (intro conjI len iff over nonempty)
  from guard complete_eq [of h messages stringify completion response stream model]
  show ?thesis by (rule conjI)
qed

text \<open>
  Serializations of 20002 characters each give an estimate of 10001, which is refused;
  of 20000 each give exactly 10000, which passes.
\<close>

theorem token_budget_enforced_witness:
  "complete_chat (\<lambda>v. replicate 20002 (CHR ''x'')) [] JNull conversation [0, 2] True None
     = ([], Threw (max_tokens_exceeded 10001 10000))
   \<and> fst (complete_chat (\<lambda>v. replicate 20000 (CHR ''x'')) [] JNull conversation [0, 2] True None) \<noteq> []"
proof -
  let ?big = "\<lambda>v::json. replicate 20002 (CHR ''x'')"
  let ?fit = "\<lambda>v::json. replicate 20000 (CHR ''x'')"
  from token_budget_enforced [of ?big _ _ _ _ _ _ conversation "[0, 2]", THEN conjunct2]
  obtain s where big: "complete_chat ?big [] JNull conversation [0, 2] True None =
      complete_adapted ?big [] JNull (adapted_values s) (system_prompts s) True None"
    by blast
  from token_budget_enforced [of ?fit _ _ _ _ _ _ conversation "[0, 2]", THEN conjunct2]
  obtain s' where fit: "complete_chat ?fit [] JNull conversation [0, 2] True None =
      complete_adapted ?fit [] JNull (adapted_values s') (system_prompts s') True None"
    by blast
  have "complete_adapted ?big [] JNull (adapted_values s) (system_prompts s) True None
      = ([], Threw (max_tokens_exceeded 10001 10000))"
    using token_budget_enforced [of ?big "adapted_values s" "system_prompts s" "[]" JNull True None,
        THEN conjunct1]
    by (simp add: Let_def token_count_def)
  moreover have "fst (complete_adapted ?fit [] JNull (adapted_values s') (system_prompts s') True None)
      \<noteq> []"
    using token_budget_enforced [of ?fit "adapted_values s'" "system_prompts s'" "[]" JNull True None,
        THEN conjunct1]
    by (simp add: Let_def token_count_def)
  ultimately show ?thesis unfolding big fit by (rule conjI)
qed















text \<open>
  C10. For an event with a top-level \<open>usage\<close> the two token counts are read from that
  object: the totals change by its \<open>input_tokens\<close> and \<open>output_tokens\<close>, and
  \<open>message.usage\<close>, whatever it holds, makes no difference.
\<close>

theorem top_level_usage_only:
  assumes "event_usage e = Some u"
  shows "count_tokens e c =
           c\<lparr>counts_input_tokens := add_tokens (input_tokens u) (counts_input_tokens c),
             counts_output_tokens := add_tokens (output_tokens u) (counts_output_tokens c)\<rparr>
         \<and> count_tokens (e\<lparr>event_message := m\<rparr>) c = count_tokens e c"
  using assms by (simp add: count_tokens_def observed_usage_def)

text \<open>
  An event whose \<open>usage\<close> has 7 output tokens and whose \<open>message.usage\<close> has 100 and
  200: the totals are 0 and 7.
\<close>

theorem top_level_usage_only_witness:
  "count_tokens usage_event \<lparr>counts_input_tokens = 0, counts_output_tokens = 0\<rparr>
     = \<lparr>counts_input_tokens = 0, counts_output_tokens = 7\<rparr>
   \<and> count_tokens (usage_event\<lparr>event_message := None\<rparr>)
         \<lparr>counts_input_tokens = 0, counts_output_tokens = 0\<rparr>
     = count_tokens usage_event \<lparr>counts_input_tokens = 0, counts_output_tokens = 0\<rparr>"
proof -
  have "event_usage usage_event = Some \<lparr>input_tokens = None, output_tokens = Some 7\<rparr>"
    by (simp add: usage_event_def)
  from top_level_usage_only [OF this, of "\<lparr>counts_input_tokens = 0, counts_output_tokens = 0\<rparr>" None]
  show ?thesis by (simp add: add_tokens_def)
qed

end
